theory Spec2Isabelle
  imports Main
begin

section \<open>C strings, the line buffer and the output buffer\<close>

text \<open>
  The two formatters of \<^verbatim>\<open>src/backend/nodes/print.c\<close> read a NUL-terminated
  string \<^verbatim>\<open>dump\<close>, fill a local array \<^verbatim>\<open>char line[LINELEN + 1]\<close> and append
  records \<^verbatim>\<open>"%s\n"\<close> to a \<^verbatim>\<open>StringInfo\<close>. The C \<^verbatim>\<open>int\<close> variables
  are modelled as \<^typ>\<open>int\<close>: a palloc'd string is shorter than 1 GB, so no counter
  of the source can leave the 32-bit range.
\<close>

definition NUL :: char where
  "NUL = CHR 0x00"

definition NEWLINE :: char where
  "NEWLINE = CHR 0x0A"

definition LINELEN :: int where
  "LINELEN = 78"

definition INDENTSTOP :: int where
  "INDENTSTOP = 3"

definition MAXINDENT :: int where
  "MAXINDENT = 60"

text \<open>\<^verbatim>\<open>a[i]\<close> read from a character array whose last cell is followed by the
  terminator: \<^verbatim>\<open>dump[strlen(dump)]\<close> is NUL. The source never reads further.\<close>

definition char_at :: "char list \<Rightarrow> int \<Rightarrow> char" where
  "char_at a i = (if 0 \<le> i \<and> i < int (length a) then a ! nat i else NUL)"

text \<open>\<^verbatim>\<open>line[j] = c\<close>. A write outside the array is undefined in C; the model drops
  it, and the invariants below show that it never happens.\<close>

definition put :: "char list \<Rightarrow> int \<Rightarrow> char \<Rightarrow> char list" where
  "put a j c = (if 0 \<le> j \<and> j < int (length a) then a[nat j := c] else a)"

text \<open>What \<^verbatim>\<open>%s\<close> prints of a character array: the characters before the first NUL.\<close>

definition cstr :: "char list \<Rightarrow> string" where
  "cstr a = takeWhile (\<lambda>c. c \<noteq> NUL) a"

text \<open>The \<^verbatim>\<open>StringInfo\<close> is kept as the list of the records appended to it;
  \<^verbatim>\<open>str.data\<close> is their concatenation, each followed by its newline. The loops are
  modelled without the bound on the size of a \<^verbatim>\<open>StringInfo\<close>; \<open>append_checked\<close>
  below adds it, with the error that \<^verbatim>\<open>appendStringInfo\<close> raises.\<close>

definition str_data :: "string list \<Rightarrow> string" where
  "str_data ls = concat (map (\<lambda>l. l @ [NEWLINE]) ls)"

text \<open>The buffer \<^verbatim>\<open>char line[LINELEN + 1]\<close> before anything is written to it.\<close>

definition line_init :: "char list" where
  "line_init = replicate (nat (LINELEN + 1)) NUL"

section \<open>format_node_dump\<close>

text \<open>\<^verbatim>\<open>for (j = 0; j < LINELEN && dump[i] != '\0'; i++, j++) line[j] = dump[i];\<close>
  entered with the given \<open>j\<close>.\<close>

function copy_line :: "string \<Rightarrow> char list \<Rightarrow> int \<Rightarrow> int \<Rightarrow> char list \<times> int \<times> int" where
  "copy_line dump line i j =
     (if j < LINELEN \<and> char_at dump i \<noteq> NUL
      then copy_line dump (put line j (char_at dump i)) (i + 1) (j + 1)
      else (line, i, j))"
  by pat_completeness auto

termination
  by (relation "measure (\<lambda>(dump, line, i, j). nat (LINELEN - j))") auto

text \<open>\<^verbatim>\<open>for (k = j - 1; k > 0; k--) if (line[k] == ' ') break;\<close> entered with the
  given \<open>k\<close>; the result is the value of \<open>k\<close> after the loop.\<close>

function scan_back :: "char list \<Rightarrow> int \<Rightarrow> int" where
  "scan_back line k =
     (if k > 0 then (if char_at line k = CHR '' '' then k else scan_back line (k - 1)) else k)"
  by pat_completeness auto

termination
  by (relation "measure (\<lambda>(line, k). nat k)") auto

text \<open>The \<^verbatim>\<open>if (dump[i] == ' ') ... else ...\<close> of the outer loop, after the copy:
  the new values of \<open>i\<close> and \<open>j\<close>.\<close>

definition break_at :: "string \<Rightarrow> char list \<Rightarrow> int \<Rightarrow> int \<Rightarrow> int \<times> int" where
  "break_at dump line i j =
     (if char_at dump i = CHR '' '' then (i + 1, j)
      else (let k = scan_back line (j - 1) in
            if k > 0 then (i - (j - k - 1), k) else (i, j)))"

text \<open>The loop \<^verbatim>\<open>for (;;)\<close>: the result is the buffer, the records appended so far
  and \<open>j\<close> when \<^verbatim>\<open>break\<close> leaves it.\<close>

function wrap_loop :: "string \<Rightarrow> char list \<Rightarrow> string list \<Rightarrow> int \<Rightarrow> char list \<times> string list \<times> int" where
  "wrap_loop dump line str i =
     (case copy_line dump line i 0 of (line1, i1, j1) \<Rightarrow>
        if char_at dump i1 = NUL then (line1, str, j1)
        else (case break_at dump line1 i1 j1 of (i2, j2) \<Rightarrow>
                wrap_loop dump (put line1 j2 NUL) (str @ [cstr (put line1 j2 NUL)]) i2))"
  by pat_completeness auto

declare copy_line.simps [simp del] scan_back.simps [simp del]

lemma copy_line_index:
  "copy_line dump line i j = (line1, i1, j1) \<Longrightarrow> i1 - i = j1 - j \<and> j \<le> j1"
proof (induction dump line i j rule: copy_line.induct)
  case (1 dump line i j)
  show ?case
  proof (cases "j < LINELEN \<and> char_at dump i \<noteq> NUL")
    case True
    with "1.prems" have "copy_line dump (put line j (char_at dump i)) (i + 1) (j + 1) = (line1, i1, j1)"
      by (subst (asm) copy_line.simps) simp
    from "1.IH"[OF True this] show ?thesis by simp
  next
    case False
    with "1.prems" show ?thesis by (subst (asm) copy_line.simps) simp
  qed
qed

lemma copy_line_full:
  "copy_line dump line i j = (line1, i1, j1) \<Longrightarrow> char_at dump i1 \<noteq> NUL \<Longrightarrow> j \<le> LINELEN
     \<Longrightarrow> j1 = LINELEN"
proof (induction dump line i j rule: copy_line.induct)
  case (1 dump line i j)
  show ?case
  proof (cases "j < LINELEN \<and> char_at dump i \<noteq> NUL")
    case True
    with "1.prems" have "copy_line dump (put line j (char_at dump i)) (i + 1) (j + 1) = (line1, i1, j1)"
      by (subst (asm) copy_line.simps) simp
    from "1.IH"[OF True this] "1.prems" True show ?thesis by simp
  next
    case False
    with "1.prems"(1) have "i1 = i" "j1 = j" by (subst (asm) copy_line.simps, simp)+
    with False "1.prems" show ?thesis by auto
  qed
qed

lemma scan_back_le: "scan_back line k \<le> k"
  by (induction line k rule: scan_back.induct) (subst scan_back.simps, auto)

lemma scan_back_ge: "0 \<le> k \<Longrightarrow> 0 \<le> scan_back line k"
  by (induction line k rule: scan_back.induct) (subst scan_back.simps, auto)

lemma char_at_not_NUL: "char_at a i \<noteq> NUL \<Longrightarrow> 0 \<le> i \<and> i < int (length a)"
  by (simp add: char_at_def split: if_splits)

lemma wrap_pass_progress:
  assumes "copy_line dump line i 0 = (line1, i1, j1)" and "char_at dump i1 \<noteq> NUL"
    and "break_at dump line1 i1 j1 = (i2, j2)"
  shows "i < i2 \<and> i2 \<le> i1 + 1 \<and> i < int (length dump)"
proof -
  from assms(1) have ix: "i1 - i = j1" by (simp add: copy_line_index)
  from copy_line_full[OF assms(1,2)] have j1: "j1 = LINELEN" by (simp add: LINELEN_def)
  from char_at_not_NUL[OF assms(2)] have i1: "i1 < int (length dump)" by simp
  from scan_back_le[of line1 "j1 - 1"] have "scan_back line1 (j1 - 1) \<le> j1 - 1" .
  with assms(3) ix j1 i1 show ?thesis
    by (auto simp: break_at_def Let_def LINELEN_def split: if_splits)
qed

termination wrap_loop
proof (relation "measure (\<lambda>(dump, line, str, i). nat (int (length dump) - i))", goal_cases)
  case 1
  show ?case by simp
next
  case (2 dump line str i line1 y i1 j1 i2 j2)
  then have "copy_line dump line i 0 = (line1, i1, j1)" and "break_at dump line1 i1 j1 = (i2, j2)"
    by simp_all
  from wrap_pass_progress[OF this(1) 2(3) this(2)] show ?case by simp
qed

declare wrap_loop.simps [simp del]

text \<open>\<^verbatim>\<open>format_node_dump\<close>: the loop, then the last, partial line when \<open>j > 0\<close>.
  The first function starts from a given content of the uninitialised buffer.\<close>

definition format_node_dump_from :: "char list \<Rightarrow> string \<Rightarrow> string list" where
  "format_node_dump_from line0 dump =
     (case wrap_loop dump line0 [] 0 of (line1, str, j) \<Rightarrow>
        if j > 0 then str @ [cstr (put line1 j NUL)] else str)"

definition format_node_dump_lines :: "string \<Rightarrow> string list" where
  "format_node_dump_lines dump = format_node_dump_from line_init dump"

definition format_node_dump :: "string \<Rightarrow> string" where
  "format_node_dump dump = str_data (format_node_dump_lines dump)"

section \<open>pretty_format_node_dump\<close>

text \<open>The local variables of the function. \<open>p_line\<close>, \<open>p_str\<close>, \<open>p_i\<close> and \<open>p_j\<close>
  are \<^verbatim>\<open>line\<close>, \<^verbatim>\<open>str\<close>, \<^verbatim>\<open>i\<close> and \<^verbatim>\<open>j\<close>.\<close>

record pstate =
  p_line :: "char list"
  p_str :: "string list"
  indentLev :: int
  indentDist :: int
  p_i :: int
  p_j :: int

text \<open>\<^verbatim>\<open>appendStringInfo(&str, "%s\n", line)\<close>. The bound on the size of the buffer
  and the error are those of \<open>append_checked\<close> below.\<close>

definition append_line :: "pstate \<Rightarrow> pstate" where
  "append_line s = s\<lparr>p_str := p_str s @ [cstr (p_line s)]\<rparr>"

text \<open>\<^verbatim>\<open>line[k] = c\<close>.\<close>

definition set_line :: "int \<Rightarrow> char \<Rightarrow> pstate \<Rightarrow> pstate" where
  "set_line k c s = s\<lparr>p_line := put (p_line s) k c\<rparr>"

text \<open>\<^verbatim>\<open>while (dump[i + 1] == ' ') i++;\<close>\<close>

function skip_spaces :: "string \<Rightarrow> int \<Rightarrow> int" where
  "skip_spaces dump i = (if char_at dump (i + 1) = CHR '' '' then skip_spaces dump (i + 1) else i)"
  by pat_completeness auto

termination
  by (relation "measure (\<lambda>(dump, i). nat (int (length dump) - i))")
    (auto simp: char_at_def NUL_def split: if_splits)

text \<open>\<^verbatim>\<open>for (; j < indentDist; j++) line[j] = ' ';\<close> entered with the given \<open>j\<close>.\<close>

function fill_indent :: "char list \<Rightarrow> int \<Rightarrow> int \<Rightarrow> char list \<times> int" where
  "fill_indent line dist j =
     (if j < dist then fill_indent (put line j (CHR '' '')) dist (j + 1) else (line, j))"
  by pat_completeness auto

termination
  by (relation "measure (\<lambda>(line, dist, j). nat (dist - j))") auto

text \<open>\<^verbatim>\<open>for (j = 0; j < indentDist; j++) line[j] = ' ';\<close> on the state.\<close>

definition indent_line :: "pstate \<Rightarrow> pstate" where
  "indent_line s =
     (case fill_indent (p_line s) (indentDist s) 0 of (l, j) \<Rightarrow> s\<lparr>p_line := l, p_j := j\<rparr>)"

text \<open>\<^verbatim>\<open>if (j != indentDist) { line[j] = '\0'; appendStringInfo(&str, "%s\n", line); }\<close>\<close>

definition flush_before :: "pstate \<Rightarrow> pstate" where
  "flush_before s = (if p_j s \<noteq> indentDist s then append_line (set_line (p_j s) NUL s) else s)"

text \<open>\<^verbatim>\<open>case '}'\<close> of the switch.\<close>

definition case_close_brace :: "string \<Rightarrow> pstate \<Rightarrow> pstate" where
  "case_close_brace dump s =
     (let s1 = flush_before s;
          s2 = append_line (set_line (indentDist s1 + 1) NUL (set_line (indentDist s1) (CHR ''}'') s1));
          s3 = (if indentLev s2 > 0
                then s2\<lparr>indentLev := indentLev s2 - 1,
                        indentDist := min ((indentLev s2 - 1) * INDENTSTOP) MAXINDENT\<rparr>
                else s2);
          s4 = s3\<lparr>p_j := indentDist s3 - 1\<rparr>
      in s4\<lparr>p_i := skip_spaces dump (p_i s4)\<rparr>)"

text \<open>\<^verbatim>\<open>case ')'\<close> of the switch.\<close>

definition case_close_paren :: "string \<Rightarrow> pstate \<Rightarrow> pstate" where
  "case_close_paren dump s =
     (if char_at dump (p_i s + 1) \<noteq> CHR '')''
      then (let s1 = append_line (set_line (p_j s + 1) NUL s);
                s2 = s1\<lparr>p_j := indentDist s1 - 1\<rparr>
            in s2\<lparr>p_i := skip_spaces dump (p_i s2)\<rparr>)
      else s)"

text \<open>\<^verbatim>\<open>case '{'\<close> of the switch.\<close>

definition case_open_brace :: "string \<Rightarrow> pstate \<Rightarrow> pstate" where
  "case_open_brace dump s =
     (let s1 = flush_before s;
          s2 = s1\<lparr>indentLev := indentLev s1 + 1,
                  indentDist := min ((indentLev s1 + 1) * INDENTSTOP) MAXINDENT\<rparr>;
          s3 = indent_line s2
      in set_line (p_j s3) (char_at dump (p_i s3)) s3)"

text \<open>\<^verbatim>\<open>case ':'\<close> of the switch.\<close>

definition case_colon :: "string \<Rightarrow> pstate \<Rightarrow> pstate" where
  "case_colon dump s =
     (let s1 = flush_before s;
          s2 = s1\<lparr>p_j := indentDist s1\<rparr>
      in set_line (p_j s2) (char_at dump (p_i s2)) s2)"

text \<open>The body of the inner loop: \<^verbatim>\<open>line[j] = dump[i]; switch (line[j]) { ... }\<close>\<close>

definition pretty_body :: "string \<Rightarrow> pstate \<Rightarrow> pstate" where
  "pretty_body dump s =
     (let s0 = set_line (p_j s) (char_at dump (p_i s)) s;
          c = char_at (p_line s0) (p_j s0)
      in if c = CHR ''}'' then case_close_brace dump s0
         else if c = CHR '')'' then case_close_paren dump s0
         else if c = CHR ''{'' then case_open_brace dump s0
         else if c = CHR '':'' then case_colon dump s0
         else s0)"

text \<open>One pass of the inner loop: the body, then \<^verbatim>\<open>i++, j++\<close>.\<close>

definition pretty_pass :: "string \<Rightarrow> pstate \<Rightarrow> pstate" where
  "pretty_pass dump s = (let s1 = pretty_body dump s in s1\<lparr>p_i := p_i s1 + 1, p_j := p_j s1 + 1\<rparr>)"

text \<open>The test of the inner loop: \<^verbatim>\<open>j < LINELEN && dump[i] != '\0'\<close>.\<close>

definition more :: "string \<Rightarrow> pstate \<Rightarrow> bool" where
  "more dump s = (p_j s < LINELEN \<and> char_at dump (p_i s) \<noteq> NUL)"

declare skip_spaces.simps [simp del] fill_indent.simps [simp del]

lemma skip_spaces_ge: "i \<le> skip_spaces dump i"
  by (induction dump i rule: skip_spaces.induct) (subst skip_spaces.simps, auto)

lemma pretty_pass_progress: "p_i s < p_i (pretty_pass dump s)"
proof -
  have "p_i s \<le> p_i (pretty_body dump s)"
    using skip_spaces_ge[of "p_i s" dump]
    by (simp add: pretty_body_def case_close_brace_def case_close_paren_def case_open_brace_def
        case_colon_def flush_before_def append_line_def set_line_def indent_line_def Let_def
        split: prod.splits)
  then show ?thesis by (simp add: pretty_pass_def Let_def)
qed

text \<open>The inner loop \<^verbatim>\<open>for (; j < LINELEN && dump[i] != '\0'; i++, j++) { ... }\<close>\<close>

function pretty_inner :: "string \<Rightarrow> pstate \<Rightarrow> pstate" where
  "pretty_inner dump s = (if more dump s then pretty_inner dump (pretty_pass dump s) else s)"
  by pat_completeness auto

termination
proof (relation "measure (\<lambda>(dump, s). nat (int (length dump) - p_i s))", goal_cases)
  case 1
  show ?case by simp
next
  case (2 dump s)
  then have "p_i s < int (length dump)"
    by (simp add: more_def char_at_def split: if_splits)
  with pretty_pass_progress[of s dump] show ?case by simp
qed

declare pretty_inner.simps [simp del]

text \<open>The outer loop \<^verbatim>\<open>for (;;)\<close>, up to its \<^verbatim>\<open>break\<close>; \<open>None\<close> when it never
  leaves.\<close>

partial_function (option) pretty_outer :: "string \<Rightarrow> pstate \<Rightarrow> pstate option" where
  "pretty_outer dump s =
     (let s1 = pretty_inner dump (indent_line s);
          s2 = set_line (p_j s1) NUL s1
      in if char_at dump (p_i s2) = NUL then Some s2 else pretty_outer dump (append_line s2))"

declare pretty_outer.simps [code]

text \<open>The state before the outer loop.\<close>

definition pretty_init :: "char list \<Rightarrow> pstate" where
  "pretty_init line0 =
     \<lparr>p_line = line0, p_str = [], indentLev = 0, indentDist = 0, p_i = 0, p_j = 0\<rparr>"

text \<open>After the loop: \<^verbatim>\<open>if (j > 0) appendStringInfo(&str, "%s\n", line); return str.data;\<close>\<close>

definition pretty_finish :: "pstate \<Rightarrow> string list" where
  "pretty_finish s = p_str (if p_j s > 0 then append_line s else s)"

definition pretty_format_node_dump_from :: "char list \<Rightarrow> string \<Rightarrow> string list option" where
  "pretty_format_node_dump_from line0 dump = map_option pretty_finish (pretty_outer dump (pretty_init line0))"

definition pretty_format_node_dump_lines :: "string \<Rightarrow> string list option" where
  "pretty_format_node_dump_lines dump = pretty_format_node_dump_from line_init dump"

definition pretty_format_node_dump :: "string \<Rightarrow> string option" where
  "pretty_format_node_dump dump = map_option str_data (pretty_format_node_dump_lines dump)"

section \<open>The line buffer as a list\<close>

lemma length_put [simp]: "length (put a j c) = length a"
  by (simp add: put_def)

lemma take_put_high: "int n \<le> j \<Longrightarrow> take n (put a j c) = take n a"
  by (simp add: put_def)

lemma take_put_here:
  "0 \<le> j \<Longrightarrow> j < int (length a) \<Longrightarrow> take (Suc (nat j)) (put a j c) = take (nat j) a @ [c]"
  by (simp add: put_def take_Suc_conv_app_nth)

lemma char_at_put_same: "0 \<le> j \<Longrightarrow> j < int (length a) \<Longrightarrow> char_at (put a j c) j = c"
  by (simp add: put_def char_at_def)

lemma cstr_put_NUL:
  assumes "0 \<le> j" and "j < int (length a)" and "NUL \<notin> set (take (nat j) a)"
  shows "cstr (put a j NUL) = take (nat j) a"
proof -
  from assms(1,2) have "put a j NUL = take (nat j) a @ NUL # drop (Suc (nat j)) a"
    by (simp add: put_def upd_conv_take_nth_drop)
  moreover have "takeWhile (\<lambda>c. c \<noteq> NUL) (take (nat j) a @ NUL # drop (Suc (nat j)) a) = take (nat j) a"
    using assms(3) by (subst takeWhile_append2) auto
  ultimately show ?thesis
    by (simp add: cstr_def)
qed

lemma fill_indent_spaces:
  assumes "fill_indent line dist j = (l, j1)" and "0 \<le> j" and "j \<le> dist" and "dist \<le> int (length line)"
    and "take (nat j) line = replicate (nat j) (CHR '' '')"
  shows "j1 = dist \<and> length l = length line \<and> take (nat dist) l = replicate (nat dist) (CHR '' '')"
  using assms
proof (induction line dist j rule: fill_indent.induct)
  case (1 line dist j)
  show ?case
  proof (cases "j < dist")
    case True
    from "1.prems"(1) True have run: "fill_indent (put line j (CHR '' '')) dist (j + 1) = (l, j1)"
      by (subst (asm) fill_indent.simps) simp
    from True "1.prems" have "take (Suc (nat j)) (put line j (CHR '' '')) = replicate (Suc (nat j)) (CHR '' '')"
      by (simp add: take_put_here replicate_append_same)
    moreover from "1.prems" have "nat (j + 1) = Suc (nat j)" by simp
    ultimately have "take (nat (j + 1)) (put line j (CHR '' '')) = replicate (nat (j + 1)) (CHR '' '')"
      by simp
    from "1.IH"[OF True run _ _ _ this] "1.prems" True show ?thesis by simp
  next
    case False
    with "1.prems" show ?thesis by (subst (asm) fill_indent.simps) auto
  qed
qed

text \<open>The characters of the buffer below the fill position \<open>j\<close>: the line in progress.\<close>

definition content :: "pstate \<Rightarrow> string" where
  "content s = take (nat (p_j s)) (p_line s)"

text \<open>An indentation of \<open>n\<close> columns.\<close>

definition spaces :: "int \<Rightarrow> string" where
  "spaces n = replicate (nat n) (CHR '' '')"

text \<open>The invariant of the inner loop of the pretty printer, at its test: the buffer has its
  79 cells, the level is not negative, the distance is the one of the level, the fill
  position lies between the distance and \<open>LINELEN\<close>, the buffer starts with the
  indentation, and no NUL lies below the fill position.\<close>

definition buf_ok :: "pstate \<Rightarrow> bool" where
  "buf_ok s \<longleftrightarrow>
     int (length (p_line s)) = LINELEN + 1 \<and> 0 \<le> indentLev s
     \<and> indentDist s = min (indentLev s * INDENTSTOP) MAXINDENT
     \<and> indentDist s \<le> p_j s \<and> p_j s \<le> LINELEN
     \<and> take (nat (indentDist s)) (p_line s) = spaces (indentDist s)
     \<and> NUL \<notin> set (content s)"

lemma buf_okD:
  assumes "buf_ok s"
  shows "length (p_line s) = 79" "0 \<le> indentLev s" "0 \<le> indentDist s" "indentDist s \<le> 60"
    "indentDist s \<le> p_j s" "p_j s \<le> 78" "0 \<le> p_j s"
    "take (nat (indentDist s)) (p_line s) = spaces (indentDist s)"
    "NUL \<notin> set (take (nat (p_j s)) (p_line s))"
  using assms by (auto simp: buf_ok_def LINELEN_def INDENTSTOP_def MAXINDENT_def content_def)

lemma buf_okI:
  "length (p_line s) = 79 \<Longrightarrow> 0 \<le> indentLev s \<Longrightarrow> indentDist s = min (indentLev s * 3) 60
    \<Longrightarrow> indentDist s \<le> p_j s \<Longrightarrow> p_j s \<le> 78
    \<Longrightarrow> take (nat (indentDist s)) (p_line s) = spaces (indentDist s)
    \<Longrightarrow> NUL \<notin> set (content s) \<Longrightarrow> buf_ok s"
  by (simp add: buf_ok_def LINELEN_def INDENTSTOP_def MAXINDENT_def)

lemma buf_ok_dist: "buf_ok s \<Longrightarrow> indentDist s = min (indentLev s * 3) 60"
  by (simp add: buf_ok_def INDENTSTOP_def MAXINDENT_def)

lemma not_NUL [simp]:
  "CHR '' '' \<noteq> NUL" "CHR ''}'' \<noteq> NUL" "CHR '')'' \<noteq> NUL" "CHR ''{'' \<noteq> NUL" "CHR '':'' \<noteq> NUL"
  "NUL \<noteq> CHR '' ''" "NUL \<noteq> CHR ''}''" "NUL \<noteq> CHR '')''" "NUL \<noteq> CHR ''{''" "NUL \<noteq> CHR '':''"
  by (simp_all add: NUL_def)

lemma flush_before_abs:
  assumes "buf_ok s" and "p_j s < LINELEN"
  shows "p_str (flush_before s) = p_str s @ (if p_j s \<noteq> indentDist s then [content s] else [])"
    and "indentLev (flush_before s) = indentLev s" and "indentDist (flush_before s) = indentDist s"
    and "p_i (flush_before s) = p_i s" and "p_j (flush_before s) = p_j s"
    and "length (p_line (flush_before s)) = 79"
    and "take (nat (p_j s)) (p_line (flush_before s)) = content s"
proof -
  note d = buf_okD[OF assms(1)]
  from d assms(2) have c: "cstr (put (p_line s) (p_j s) NUL) = content s"
    by (simp add: cstr_put_NUL content_def LINELEN_def)
  show "p_str (flush_before s) = p_str s @ (if p_j s \<noteq> indentDist s then [content s] else [])"
    using c by (simp add: flush_before_def append_line_def set_line_def)
  show "indentLev (flush_before s) = indentLev s" "indentDist (flush_before s) = indentDist s"
    "p_i (flush_before s) = p_i s" "p_j (flush_before s) = p_j s"
    by (simp_all add: flush_before_def append_line_def set_line_def)
  show "length (p_line (flush_before s)) = 79"
    using d by (simp add: flush_before_def append_line_def set_line_def)
  show "take (nat (p_j s)) (p_line (flush_before s)) = content s"
    using d by (simp add: flush_before_def append_line_def set_line_def content_def take_put_high)
qed

lemma take_nat_put_high: "n \<le> j \<Longrightarrow> take (nat n) (put a j c) = take (nat n) a"
  by (cases "0 \<le> n") (simp_all add: take_put_high)

lemma take_nat_put_here:
  "0 \<le> j \<Longrightarrow> j < int (length a) \<Longrightarrow> take (nat (j + 1)) (put a j c) = take (nat j) a @ [c]"
  using take_put_here[of j a c] by (simp add: nat_add_distrib)

lemma take_nat_le:
  "m \<le> n \<Longrightarrow> take (nat n) a = take (nat n) b \<Longrightarrow> take (nat m) a = take (nat m) b"
  by (metis min.absorb1 nat_mono take_take)

lemma take_spaces: "m \<le> n \<Longrightarrow> take (nat n) a = spaces n \<Longrightarrow> take (nat m) a = spaces m"
proof -
  assume le: "m \<le> n" and eq: "take (nat n) a = spaces n"
  have "take (nat m) a = take (nat m) (take (nat n) a)"
    using le by (simp add: min.absorb1 nat_mono)
  also have "\<dots> = spaces m"
    using le by (simp add: eq spaces_def min.absorb1 nat_mono)
  finally show ?thesis .
qed

lemma NUL_spaces [simp]: "NUL \<notin> set (spaces n)"
  by (simp add: spaces_def)

lemma close_brace_abs:
  fixes dump :: string
  assumes ok: "buf_ok s" and lt: "p_j s < LINELEN"
  defines "s' \<equiv> case_close_brace dump s"
  shows "p_str s' = p_str s @ (if p_j s \<noteq> indentDist s then [content s] else [])
                     @ [spaces (indentDist s) @ ''}'']"
    and "indentLev s' = (if indentLev s > 0 then indentLev s - 1 else indentLev s)"
    and "indentDist s' = min (indentLev s' * INDENTSTOP) MAXINDENT"
    and "p_j s' = indentDist s' - 1"
    and "p_i s' = skip_spaces dump (p_i s)"
    and "length (p_line s') = 79"
    and "take (nat (indentDist s')) (p_line s') = spaces (indentDist s')"
proof -
  note d = buf_okD[OF ok]
  note f = flush_before_abs[OF ok lt]
  define l1 where "l1 = p_line (flush_before s)"
  define l2 where "l2 = put (put l1 (indentDist s) (CHR ''}'')) (indentDist s + 1) NUL"
  have len1: "length l1 = 79" by (simp add: l1_def f)
  have sp1: "take (nat (indentDist s)) l1 = spaces (indentDist s)"
  proof -
    have "take (nat (p_j s)) l1 = take (nat (p_j s)) (p_line s)"
      using f(7) by (simp add: l1_def content_def)
    from take_nat_le[OF d(5) this] d(8) show ?thesis by simp
  qed
  have t2: "take (nat (indentDist s + 1)) (put l1 (indentDist s) (CHR ''}'')) = spaces (indentDist s) @ ''}''"
    using d len1 sp1 by (simp add: take_nat_put_here)
  have c2: "cstr l2 = spaces (indentDist s) @ ''}''"
    unfolding l2_def using d len1 t2 by (subst cstr_put_NUL) simp_all
  have sp2: "take (nat (indentDist s)) l2 = spaces (indentDist s)"
    unfolding l2_def using sp1 by (simp add: take_nat_put_high)
  have line': "p_line s' = l2"
    by (simp add: s'_def case_close_brace_def Let_def l2_def l1_def append_line_def set_line_def
        f(2,3,4,5))
  show "p_str s' = p_str s @ (if p_j s \<noteq> indentDist s then [content s] else [])
                     @ [spaces (indentDist s) @ ''}'']"
    using c2 f(1)
    by (simp add: s'_def case_close_brace_def Let_def l2_def l1_def append_line_def set_line_def
        f(2,3,4,5))
  show lev: "indentLev s' = (if indentLev s > 0 then indentLev s - 1 else indentLev s)"
    by (simp add: s'_def case_close_brace_def Let_def append_line_def set_line_def f(2,3,4,5))
  show dist: "indentDist s' = min (indentLev s' * INDENTSTOP) MAXINDENT"
    using buf_ok_dist[OF ok]
    by (simp add: s'_def case_close_brace_def Let_def append_line_def set_line_def f(2,3,4,5)
        INDENTSTOP_def MAXINDENT_def)
  show "p_j s' = indentDist s' - 1"
    by (simp add: s'_def case_close_brace_def Let_def append_line_def set_line_def f(2,3,4,5))
  show "p_i s' = skip_spaces dump (p_i s)"
    by (simp add: s'_def case_close_brace_def Let_def append_line_def set_line_def f(2,3,4,5))
  show "length (p_line s') = 79"
    using len1 by (simp add: line' l2_def)
  have "indentDist s' \<le> indentDist s"
    using dist lev buf_ok_dist[OF ok] by (simp add: INDENTSTOP_def MAXINDENT_def split: if_splits)
  from take_spaces[OF this sp2] show "take (nat (indentDist s')) (p_line s') = spaces (indentDist s')"
    by (simp add: line')
qed

lemma close_paren_abs:
  fixes dump :: string
  assumes ok: "buf_ok s" and lt: "p_j s < LINELEN"
    and nn: "NUL \<notin> set (take (nat (p_j s + 1)) (p_line s))"
    and nxt: "char_at dump (p_i s + 1) \<noteq> CHR '')''"
  defines "s' \<equiv> case_close_paren dump s"
  shows "p_str s' = p_str s @ [take (nat (p_j s + 1)) (p_line s)]"
    and "indentLev s' = indentLev s" and "indentDist s' = indentDist s"
    and "p_j s' = indentDist s' - 1"
    and "p_i s' = skip_spaces dump (p_i s)"
    and "length (p_line s') = 79"
    and "take (nat (indentDist s')) (p_line s') = spaces (indentDist s')"
proof -
  note d = buf_okD[OF ok]
  from lt have lt': "p_j s < 78" by (simp add: LINELEN_def)
  have c: "cstr (put (p_line s) (p_j s + 1) NUL) = take (nat (p_j s + 1)) (p_line s)"
    using d lt' nn by (subst cstr_put_NUL) simp_all
  show "p_str s' = p_str s @ [take (nat (p_j s + 1)) (p_line s)]"
    using c nxt by (simp add: s'_def case_close_paren_def Let_def append_line_def set_line_def)
  show "indentLev s' = indentLev s" "indentDist s' = indentDist s" "p_j s' = indentDist s' - 1"
    "p_i s' = skip_spaces dump (p_i s)"
    using nxt by (simp_all add: s'_def case_close_paren_def Let_def append_line_def set_line_def)
  show "length (p_line s') = 79"
    using nxt d by (simp add: s'_def case_close_paren_def Let_def append_line_def set_line_def)
  show "take (nat (indentDist s')) (p_line s') = spaces (indentDist s')"
    using nxt d
    by (simp add: s'_def case_close_paren_def Let_def append_line_def set_line_def take_nat_put_high)
qed

lemma indent_line_abs:
  assumes "length (p_line s) = 79" and "0 \<le> indentDist s" and "indentDist s \<le> 60"
  shows "p_j (indent_line s) = indentDist s" and "length (p_line (indent_line s)) = 79"
    and "take (nat (indentDist s)) (p_line (indent_line s)) = spaces (indentDist s)"
    and "p_str (indent_line s) = p_str s" and "indentLev (indent_line s) = indentLev s"
    and "indentDist (indent_line s) = indentDist s" and "p_i (indent_line s) = p_i s"
proof -
  obtain l j where fi: "fill_indent (p_line s) (indentDist s) 0 = (l, j)"
    by (cases "fill_indent (p_line s) (indentDist s) 0")
  from fill_indent_spaces[OF fi] assms
  have "j = indentDist s \<and> length l = 79 \<and> take (nat (indentDist s)) l = spaces (indentDist s)"
    by (simp add: spaces_def)
  with fi show "p_j (indent_line s) = indentDist s" "length (p_line (indent_line s)) = 79"
    "take (nat (indentDist s)) (p_line (indent_line s)) = spaces (indentDist s)"
    "p_str (indent_line s) = p_str s" "indentLev (indent_line s) = indentLev s"
    "indentDist (indent_line s) = indentDist s" "p_i (indent_line s) = p_i s"
    by (simp_all add: indent_line_def)
qed

lemma open_brace_abs:
  fixes dump :: string
  assumes ok: "buf_ok s" and lt: "p_j s < LINELEN"
  defines "s' \<equiv> case_open_brace dump s"
  shows "p_str s' = p_str s @ (if p_j s \<noteq> indentDist s then [content s] else [])"
    and "indentLev s' = indentLev s + 1"
    and "indentDist s' = min (indentLev s' * INDENTSTOP) MAXINDENT"
    and "p_j s' = indentDist s'"
    and "p_i s' = p_i s"
    and "length (p_line s') = 79"
    and "take (nat (indentDist s')) (p_line s') = spaces (indentDist s')"
    and "take (nat (indentDist s' + 1)) (p_line s') = spaces (indentDist s') @ [char_at dump (p_i s)]"
proof -
  note d = buf_okD[OF ok]
  note f = flush_before_abs[OF ok lt]
  define s2 where "s2 = (flush_before s)\<lparr>indentLev := indentLev s + 1,
      indentDist := min ((indentLev s + 1) * INDENTSTOP) MAXINDENT\<rparr>"
  have s2: "length (p_line s2) = 79" "0 \<le> indentDist s2" "indentDist s2 \<le> 60"
    "indentDist s2 = min ((indentLev s + 1) * INDENTSTOP) MAXINDENT"
    "p_str s2 = p_str s @ (if p_j s \<noteq> indentDist s then [content s] else [])"
    "indentLev s2 = indentLev s + 1" "p_i s2 = p_i s"
    using d f by (simp_all add: s2_def INDENTSTOP_def MAXINDENT_def)
  note il = indent_line_abs[OF s2(1,2,3)]
  have s': "s' = set_line (indentDist s2) (char_at dump (p_i s)) (indent_line s2)"
    by (simp add: s'_def case_open_brace_def Let_def s2_def f il[unfolded s2_def])
  show "p_str s' = p_str s @ (if p_j s \<noteq> indentDist s then [content s] else [])"
    and "indentLev s' = indentLev s + 1"
    and "indentDist s' = min (indentLev s' * INDENTSTOP) MAXINDENT"
    and "p_j s' = indentDist s'"
    and "p_i s' = p_i s"
    by (simp_all add: s' set_line_def il s2)
  show "length (p_line s') = 79"
    by (simp add: s' set_line_def il)
  show "take (nat (indentDist s')) (p_line s') = spaces (indentDist s')"
    by (simp add: s' set_line_def il take_nat_put_high)
  show "take (nat (indentDist s' + 1)) (p_line s') = spaces (indentDist s') @ [char_at dump (p_i s)]"
    using s2(2,3) by (simp add: s' set_line_def il take_nat_put_here)
qed

lemma colon_abs:
  fixes dump :: string
  assumes ok: "buf_ok s" and lt: "p_j s < LINELEN"
  defines "s' \<equiv> case_colon dump s"
  shows "p_str s' = p_str s @ (if p_j s \<noteq> indentDist s then [content s] else [])"
    and "indentLev s' = indentLev s"
    and "indentDist s' = indentDist s"
    and "p_j s' = indentDist s'"
    and "p_i s' = p_i s"
    and "length (p_line s') = 79"
    and "take (nat (indentDist s')) (p_line s') = spaces (indentDist s')"
    and "take (nat (indentDist s' + 1)) (p_line s') = spaces (indentDist s') @ [char_at dump (p_i s)]"
proof -
  note d = buf_okD[OF ok]
  note f = flush_before_abs[OF ok lt]
  have s': "s' = set_line (indentDist s) (char_at dump (p_i s)) ((flush_before s)\<lparr>p_j := indentDist s\<rparr>)"
    by (simp add: s'_def case_colon_def Let_def f)
  have sp1: "take (nat (indentDist s)) (p_line (flush_before s)) = spaces (indentDist s)"
  proof -
    have "take (nat (p_j s)) (p_line (flush_before s)) = take (nat (p_j s)) (p_line s)"
      using f(7) by (simp add: content_def)
    from take_nat_le[OF d(5) this] d(8) show ?thesis by simp
  qed
  show "p_str s' = p_str s @ (if p_j s \<noteq> indentDist s then [content s] else [])"
    and "indentLev s' = indentLev s"
    and "indentDist s' = indentDist s"
    and "p_j s' = indentDist s'"
    and "p_i s' = p_i s"
    by (simp_all add: s' set_line_def f)
  show "length (p_line s') = 79"
    by (simp add: s' set_line_def f)
  show "take (nat (indentDist s')) (p_line s') = spaces (indentDist s')"
    by (simp add: s' set_line_def sp1 f take_nat_put_high)
  show "take (nat (indentDist s' + 1)) (p_line s') = spaces (indentDist s') @ [char_at dump (p_i s)]"
    using d by (simp add: s' set_line_def sp1 f take_nat_put_here)
qed

lemma set_line_here:
  assumes ok: "buf_ok s" and lt: "p_j s < LINELEN" and c: "c \<noteq> NUL"
  defines "s0 \<equiv> set_line (p_j s) c s"
  shows "buf_ok s0" and "content s0 = content s" and "char_at (p_line s0) (p_j s0) = c"
    and "take (nat (p_j s + 1)) (p_line s0) = content s @ [c]"
    and "p_str s0 = p_str s" and "indentLev s0 = indentLev s" and "indentDist s0 = indentDist s"
    and "p_i s0 = p_i s" and "p_j s0 = p_j s"
proof -
  note d = buf_okD[OF ok]
  show f: "p_str s0 = p_str s" "indentLev s0 = indentLev s" "indentDist s0 = indentDist s"
    "p_i s0 = p_i s" "p_j s0 = p_j s"
    by (simp_all add: s0_def set_line_def)
  show cont: "content s0 = content s"
    by (simp add: content_def s0_def set_line_def take_nat_put_high)
  show "char_at (p_line s0) (p_j s0) = c"
    using d lt by (simp add: s0_def set_line_def char_at_put_same LINELEN_def)
  show "take (nat (p_j s + 1)) (p_line s0) = content s @ [c]"
    using d lt by (simp add: s0_def set_line_def take_nat_put_here LINELEN_def content_def)
  have "take (nat (indentDist s)) (p_line s0) = spaces (indentDist s)"
    using d by (simp add: s0_def set_line_def take_nat_put_high)
  with ok cont show "buf_ok s0"
    by (simp add: buf_ok_def f) (simp add: s0_def set_line_def)
qed

lemma pass_effect:
  fixes dump :: string
  assumes ok: "buf_ok s" and more: "more dump s"
  defines "c \<equiv> char_at dump (p_i s)" and "s' \<equiv> pretty_pass dump s"
    and "fl \<equiv> (if p_j s \<noteq> indentDist s then [content s] else [])"
  defines "brk \<equiv> (c = CHR ''}'' \<or> (c = CHR '')'' \<and> char_at dump (p_i s + 1) \<noteq> CHR '')''))"
  shows "buf_ok s'"
    and "p_str s' = p_str s @
          (if c = CHR ''}'' then fl @ [spaces (indentDist s) @ ''}'']
           else if c = CHR '')'' then (if brk then [content s @ '')''] else [])
           else if c = CHR ''{'' \<or> c = CHR '':'' then fl else [])"
    and "indentLev s' =
          (if c = CHR ''}'' then (if indentLev s > 0 then indentLev s - 1 else indentLev s)
           else if c = CHR ''{'' then indentLev s + 1 else indentLev s)"
    and "p_i s' = (if brk then skip_spaces dump (p_i s) + 1 else p_i s + 1)"
    and "content s' =
          (if brk then spaces (indentDist s')
           else if c = CHR ''{'' \<or> c = CHR '':'' then spaces (indentDist s') @ [c]
           else content s @ [c])"
proof -
  from more have lt: "p_j s < LINELEN" and cn: "c \<noteq> NUL"
    by (simp_all add: more_def c_def)
  define s0 where "s0 = set_line (p_j s) c s"
  note z = set_line_here[OF ok lt cn, folded s0_def]
  from z(1) have ok0: "buf_ok s0" .
  from lt z have lt0: "p_j s0 < LINELEN" by simp
  note d = buf_okD[OF ok]
  note d0 = buf_okD[OF ok0]
  have nn: "NUL \<notin> set (take (nat (p_j s0 + 1)) (p_line s0))"
    using z(4) cn d(9) by (simp add: z(9) content_def)
  have body: "pretty_body dump s =
      (if c = CHR ''}'' then case_close_brace dump s0
       else if c = CHR '')'' then case_close_paren dump s0
       else if c = CHR ''{'' then case_open_brace dump s0
       else if c = CHR '':'' then case_colon dump s0
       else s0)"
    using z(3) by (simp add: pretty_body_def Let_def s0_def c_def)
  have pass: "s' = (pretty_body dump s)\<lparr>p_i := p_i (pretty_body dump s) + 1,
      p_j := p_j (pretty_body dump s) + 1\<rparr>"
    by (simp add: s'_def pretty_pass_def Let_def)
  consider (cb) "c = CHR ''}''" | (cpb) "c = CHR '')''" "char_at dump (p_i s + 1) \<noteq> CHR '')''"
    | (cps) "c = CHR '')''" "char_at dump (p_i s + 1) = CHR '')''"
    | (ob) "c = CHR ''{''" | (co) "c = CHR '':''"
    | (other) "c \<noteq> CHR ''}''" "c \<noteq> CHR '')''" "c \<noteq> CHR ''{''" "c \<noteq> CHR '':''"
    by blast
  then have "buf_ok s' \<and> p_str s' = p_str s @
          (if c = CHR ''}'' then fl @ [spaces (indentDist s) @ ''}'']
           else if c = CHR '')'' then (if brk then [content s @ '')''] else [])
           else if c = CHR ''{'' \<or> c = CHR '':'' then fl else [])
    \<and> indentLev s' =
          (if c = CHR ''}'' then (if indentLev s > 0 then indentLev s - 1 else indentLev s)
           else if c = CHR ''{'' then indentLev s + 1 else indentLev s)
    \<and> p_i s' = (if brk then skip_spaces dump (p_i s) + 1 else p_i s + 1)
    \<and> content s' =
          (if brk then spaces (indentDist s')
           else if c = CHR ''{'' \<or> c = CHR '':'' then spaces (indentDist s') @ [c]
           else content s @ [c])"
  proof cases
    case cb
    note a = close_brace_abs[OF ok0 lt0, of dump]
    from cb have s': "s' = (case_close_brace dump s0)\<lparr>p_i := p_i (case_close_brace dump s0) + 1,
      p_j := p_j (case_close_brace dump s0) + 1\<rparr>"
      by (simp add: pass body)
    have cont: "content s' = spaces (indentDist s')"
      using a(7) by (simp add: content_def s' a(4))
    have "buf_ok s'"
      using a(2,3,6,7) d(2) cont
      by (auto simp: buf_ok_def s' a(4) z LINELEN_def INDENTSTOP_def MAXINDENT_def)
    with cb cont show ?thesis
      by (simp add: brk_def s' a(1,2,5) z fl_def)
  next
    case cpb
    note a = close_paren_abs[OF ok0 lt0 nn, of dump, unfolded z, OF cpb(2)]
    from cpb have s': "s' = (case_close_paren dump s0)\<lparr>p_i := p_i (case_close_paren dump s0) + 1,
      p_j := p_j (case_close_paren dump s0) + 1\<rparr>"
      by (simp add: pass body)
    have cont: "content s' = spaces (indentDist s')"
      using a(7) by (simp add: content_def s' a(4))
    have "buf_ok s'"
      using a(2,3,6,7) d cont buf_ok_dist[OF ok]
      by (auto simp: buf_ok_def s' a(4) LINELEN_def INDENTSTOP_def MAXINDENT_def)
    with cpb cont show ?thesis
      by (simp add: brk_def s' a(1,2,5))
  next
    case cps
    from cps have s': "s' = s0\<lparr>p_i := p_i s0 + 1, p_j := p_j s0 + 1\<rparr>"
      by (simp add: pass body case_close_paren_def z)
    have cont: "content s' = content s @ [c]"
      using z(4) by (simp add: content_def s' z)
    have "buf_ok s'"
    proof (rule buf_okI)
      show "NUL \<notin> set (content s')"
        using cn d(9) by (subst cont) (simp add: content_def)
    qed (use d0 lt buf_ok_dist[OF ok0] in \<open>simp_all add: s' z LINELEN_def\<close>)
    with cps cont show ?thesis
      by (simp add: brk_def s' z)
  next
    case ob
    note a = open_brace_abs[OF ok0 lt0, of dump, unfolded z]
    from ob have s': "s' = (case_open_brace dump s0)\<lparr>p_i := p_i (case_open_brace dump s0) + 1,
      p_j := p_j (case_open_brace dump s0) + 1\<rparr>"
      by (simp add: pass body)
    have cont: "content s' = spaces (indentDist s') @ [c]"
      using a(8) by (simp add: content_def s' a(4) c_def)
    have "buf_ok s'"
      using a(2,3,6,7) d cont cn
      by (auto simp: buf_ok_def s' a(4) LINELEN_def INDENTSTOP_def MAXINDENT_def)
    with ob cont show ?thesis
      by (simp add: brk_def s' a(1,2,5) fl_def)
  next
    case co
    note a = colon_abs[OF ok0 lt0, of dump, unfolded z]
    from co have s': "s' = (case_colon dump s0)\<lparr>p_i := p_i (case_colon dump s0) + 1,
      p_j := p_j (case_colon dump s0) + 1\<rparr>"
      by (simp add: pass body)
    have cont: "content s' = spaces (indentDist s') @ [c]"
      using a(8) by (simp add: content_def s' a(4) c_def)
    have "buf_ok s'"
      using a(2,3,6,7) d cont cn buf_ok_dist[OF ok]
      by (auto simp: buf_ok_def s' a(4) LINELEN_def INDENTSTOP_def MAXINDENT_def)
    with co cont show ?thesis
      by (simp add: brk_def s' a(1,2,5) fl_def)
  next
    case other
    from other have s': "s' = s0\<lparr>p_i := p_i s0 + 1, p_j := p_j s0 + 1\<rparr>"
      by (simp add: pass body)
    have cont: "content s' = content s @ [c]"
      using z(4) by (simp add: content_def s' z)
    have "buf_ok s'"
    proof (rule buf_okI)
      show "NUL \<notin> set (content s')"
        using cn d(9) by (subst cont) (simp add: content_def)
    qed (use d0 lt buf_ok_dist[OF ok0] in \<open>simp_all add: s' z LINELEN_def\<close>)
    with other cont show ?thesis
      by (simp add: brk_def s' z)
  qed
  then show "buf_ok s'"
    and "p_str s' = p_str s @
          (if c = CHR ''}'' then fl @ [spaces (indentDist s) @ ''}'']
           else if c = CHR '')'' then (if brk then [content s @ '')''] else [])
           else if c = CHR ''{'' \<or> c = CHR '':'' then fl else [])"
    and "indentLev s' =
          (if c = CHR ''}'' then (if indentLev s > 0 then indentLev s - 1 else indentLev s)
           else if c = CHR ''{'' then indentLev s + 1 else indentLev s)"
    and "p_i s' = (if brk then skip_spaces dump (p_i s) + 1 else p_i s + 1)"
    and "content s' =
          (if brk then spaces (indentDist s')
           else if c = CHR ''{'' \<or> c = CHR '':'' then spaces (indentDist s') @ [c]
           else content s @ [c])"
    by simp_all
qed

section \<open>The states of a run of the pretty printer\<close>

text \<open>The five marker characters of a node dump.\<close>

definition is_marker :: "char \<Rightarrow> bool" where
  "is_marker c \<longleftrightarrow> c = CHR ''{'' \<or> c = CHR ''}'' \<or> c = CHR ''('' \<or> c = CHR '')'' \<or> c = CHR '':''"

text \<open>The end of a pass of the outer loop that does not break, and the start of the next
  one: \<^verbatim>\<open>line[j] = '\0'\<close>, the buffer appended, the indentation filled in again.\<close>

definition width_flush :: "pstate \<Rightarrow> pstate" where
  "width_flush s = indent_line (append_line (set_line (p_j s) NUL s))"

text \<open>The states of a run of \<^verbatim>\<open>pretty_format_node_dump\<close> on \<open>dump\<close>, each taken at the
  test of the inner loop, from any content of the buffer at the start. The list holds the
  values of \<open>indentLev\<close> after each marker character read so far.\<close>

inductive pretty_reach :: "string \<Rightarrow> pstate \<Rightarrow> int list \<Rightarrow> bool" for dump :: string where
  reach_init: "int (length line0) = LINELEN + 1 \<Longrightarrow> pretty_reach dump (indent_line (pretty_init line0)) []"
| reach_pass: "pretty_reach dump s lv \<Longrightarrow> more dump s
    \<Longrightarrow> pretty_reach dump (pretty_pass dump s)
          (lv @ (if is_marker (char_at dump (p_i s)) then [indentLev (pretty_pass dump s)] else []))"
| reach_flush: "pretty_reach dump s lv \<Longrightarrow> \<not> more dump s \<Longrightarrow> char_at dump (p_i s) \<noteq> NUL
    \<Longrightarrow> pretty_reach dump (width_flush s) lv"

lemma length_content: "buf_ok s \<Longrightarrow> int (length (content s)) = p_j s"
  using buf_okD[of s] by (simp add: content_def)

lemma cstr_line_end:
  assumes "buf_ok s"
  shows "cstr (p_line (set_line (p_j s) NUL s)) = content s"
  using buf_okD[OF assms] by (simp add: set_line_def cstr_put_NUL content_def)

lemma width_flush_effect:
  assumes ok: "buf_ok s"
  shows "buf_ok (width_flush s)" and "p_str (width_flush s) = p_str s @ [content s]"
    and "indentLev (width_flush s) = indentLev s" and "p_i (width_flush s) = p_i s"
    and "content (width_flush s) = spaces (indentDist s)"
proof -
  note d = buf_okD[OF ok]
  define s2 where "s2 = append_line (set_line (p_j s) NUL s)"
  have s2: "length (p_line s2) = 79" "0 \<le> indentDist s2" "indentDist s2 \<le> 60"
    "p_str s2 = p_str s @ [content s]" "indentLev s2 = indentLev s" "indentDist s2 = indentDist s"
    "p_i s2 = p_i s"
    using d cstr_line_end[OF ok] by (simp_all add: s2_def append_line_def set_line_def)
  note il = indent_line_abs[OF s2(1,2,3)]
  have wf: "width_flush s = indent_line s2" by (simp add: width_flush_def s2_def)
  show "p_str (width_flush s) = p_str s @ [content s]" "indentLev (width_flush s) = indentLev s"
    "p_i (width_flush s) = p_i s"
    by (simp_all add: wf il s2)
  show c: "content (width_flush s) = spaces (indentDist s)"
    using il(3) by (simp add: wf content_def il s2)
  show "buf_ok (width_flush s)"
  proof (rule buf_okI)
    show "NUL \<notin> set (content (width_flush s))" by (simp add: c)
  qed (use d il buf_ok_dist[OF ok] in \<open>simp_all add: wf s2\<close>)
qed

lemma init_effect:
  assumes "int (length line0) = LINELEN + 1"
  defines "s \<equiv> indent_line (pretty_init line0)"
  shows "buf_ok s" and "p_str s = []" and "indentLev s = 0" and "p_i s = 0" and "content s = []"
    and "p_j s = 0"
proof -
  have i: "length (p_line (pretty_init line0)) = 79" "0 \<le> indentDist (pretty_init line0)"
    "indentDist (pretty_init line0) \<le> 60"
    using assms(1) by (simp_all add: pretty_init_def LINELEN_def)
  note il = indent_line_abs[OF i]
  show "p_str s = []" "indentLev s = 0" "p_i s = 0" "p_j s = 0"
    by (simp_all add: s_def il) (simp_all add: pretty_init_def)
  then show c: "content s = []" by (simp add: content_def)
  show "buf_ok s"
  proof (rule buf_okI)
    show "NUL \<notin> set (content s)" by (simp add: c)
  qed (use il in \<open>simp_all add: s_def\<close>, simp_all add: pretty_init_def spaces_def)
qed

lemma reach_buf_ok: "pretty_reach dump s lv \<Longrightarrow> buf_ok s"
  by (induction rule: pretty_reach.induct)
    (simp_all add: init_effect pass_effect width_flush_effect)

lemma inner_reach:
  "pretty_reach dump s lv \<Longrightarrow>
     \<exists>lv'. pretty_reach dump (pretty_inner dump s) lv' \<and> \<not> more dump (pretty_inner dump s)
       \<and> (if more dump s then p_i s < p_i (pretty_inner dump s) else pretty_inner dump s = s)"
proof (induction dump s arbitrary: lv rule: pretty_inner.induct)
  case (1 dump s)
  show ?case
  proof (cases "more dump s")
    case True
    from reach_pass[OF "1.prems" True] obtain lv1 where "pretty_reach dump (pretty_pass dump s) lv1"
      by blast
    from "1.IH"[OF True this] obtain lv' where
      r: "pretty_reach dump (pretty_inner dump (pretty_pass dump s)) lv'"
      and m: "\<not> more dump (pretty_inner dump (pretty_pass dump s))"
      and p: "p_i (pretty_pass dump s) \<le> p_i (pretty_inner dump (pretty_pass dump s))"
      by (auto split: if_splits)
    have e: "pretty_inner dump s = pretty_inner dump (pretty_pass dump s)"
      using True by (subst pretty_inner.simps) simp
    from r m p pretty_pass_progress[of s dump] True show ?thesis
      by (auto simp: e)
  next
    case False
    then have "pretty_inner dump s = s" by (subst pretty_inner.simps) simp
    with False "1.prems" show ?thesis by auto
  qed
qed

lemma fill_indent_index:
  "fill_indent line dist j = (l, j1) \<Longrightarrow> j1 = max j dist \<and> length l = length line"
proof (induction line dist j rule: fill_indent.induct)
  case (1 line dist j)
  show ?case
  proof (cases "j < dist")
    case True
    with "1.prems" have "fill_indent (put line j (CHR '' '')) dist (j + 1) = (l, j1)"
      by (subst (asm) fill_indent.simps) simp
    from "1.IH"[OF True this] True show ?thesis by simp
  next
    case False
    with "1.prems" show ?thesis by (subst (asm) fill_indent.simps) auto
  qed
qed

lemma indent_line_index:
  "p_j (indent_line s) = max 0 (indentDist s)" "indentDist (indent_line s) = indentDist s"
  "p_i (indent_line s) = p_i s"
  using fill_indent_index[of "p_line s" "indentDist s" 0]
  by (auto simp: indent_line_def split: prod.splits)

lemma outer_total:
  "pretty_reach dump (indent_line s) lv \<Longrightarrow>
     \<exists>s1 lv1. pretty_outer dump s = Some (set_line (p_j s1) NUL s1) \<and> pretty_reach dump s1 lv1
       \<and> char_at dump (p_i s1) = NUL"
proof (induction "nat (int (length dump) - p_i s)" arbitrary: s lv rule: less_induct)
  case less
  define s1 where "s1 = pretty_inner dump (indent_line s)"
  from inner_reach[OF less.prems] obtain lv1 where
    r: "pretty_reach dump s1 lv1" and m: "\<not> more dump s1"
    and p: "if more dump (indent_line s) then p_i (indent_line s) < p_i s1 else s1 = indent_line s"
    unfolding s1_def by blast
  have unf: "pretty_outer dump s =
      (if char_at dump (p_i s1) = NUL then Some (set_line (p_j s1) NUL s1)
       else pretty_outer dump (append_line (set_line (p_j s1) NUL s1)))"
    by (subst pretty_outer.simps) (simp add: Let_def s1_def set_line_def)
  show ?case
  proof (cases "char_at dump (p_i s1) = NUL")
    case True
    with unf r show ?thesis by auto
  next
    case False
    note ok = reach_buf_ok[OF less.prems]
    have pi: "p_i (indent_line s) = p_i s"
      by (simp add: indent_line_index)
    have "more dump (indent_line s)"
    proof (rule ccontr)
      assume n: "\<not> more dump (indent_line s)"
      with p have "s1 = indent_line s" by simp
      with False n buf_okD[OF ok] indent_line_index[of s] show False
        by (simp add: more_def LINELEN_def)
    qed
    with p pi have lt: "p_i s < p_i s1" by simp
    from False have "p_i s1 < int (length dump)" by (simp add: char_at_def split: if_splits)
    with lt have dec: "nat (int (length dump) - p_i (append_line (set_line (p_j s1) NUL s1)))
        < nat (int (length dump) - p_i s)"
      by (simp add: append_line_def set_line_def)
    from reach_flush[OF r m False]
    have "pretty_reach dump (indent_line (append_line (set_line (p_j s1) NUL s1))) lv1"
      by (simp add: width_flush_def)
    from less.hyps[OF dec this] unf False show ?thesis by simp
  qed
qed

lemma pretty_result:
  assumes "int (length line0) = LINELEN + 1"
  shows "\<exists>s lv. pretty_reach dump s lv \<and> char_at dump (p_i s) = NUL
           \<and> pretty_format_node_dump_from line0 dump
               = Some (p_str s @ (if p_j s > 0 then [content s] else []))"
proof -
  from outer_total[OF reach_init[OF assms]] obtain s lv where
    o: "pretty_outer dump (pretty_init line0) = Some (set_line (p_j s) NUL s)"
    and r: "pretty_reach dump s lv" and e: "char_at dump (p_i s) = NUL"
    by blast
  have "pretty_finish (set_line (p_j s) NUL s) = p_str s @ (if p_j s > 0 then [content s] else [])"
    using cstr_line_end[OF reach_buf_ok[OF r]]
    by (simp add: pretty_finish_def append_line_def) (simp add: set_line_def)
  with o r e show ?thesis
    by (auto simp: pretty_format_node_dump_from_def)
qed

text \<open>A record of the output: not empty, at most \<open>LINELEN\<close> characters, no NUL.\<close>

definition line_ok :: "string \<Rightarrow> bool" where
  "line_ok l \<longleftrightarrow> l \<noteq> [] \<and> int (length l) \<le> LINELEN \<and> NUL \<notin> set l"

lemma content_line_ok: "buf_ok s \<Longrightarrow> 0 < p_j s \<Longrightarrow> line_ok (content s)"
  using length_content[of s] buf_okD[of s]
  by (auto simp: line_ok_def LINELEN_def content_def)

lemma reach_lines: "pretty_reach dump s lv \<Longrightarrow> list_all line_ok (p_str s)"
proof (induction rule: pretty_reach.induct)
  case (reach_init line0)
  then show ?case by (simp add: init_effect)
next
  case (reach_pass s lv)
  note ok = reach_buf_ok[OF reach_pass.hyps(1)]
  note d = buf_okD[OF ok]
  from reach_pass.hyps(2) have lt: "p_j s < 78" by (simp add: more_def LINELEN_def)
  have fl: "p_j s \<noteq> indentDist s \<Longrightarrow> line_ok (content s)"
    using content_line_ok[OF ok] d by simp 
  have cb: "line_ok (spaces (indentDist s) @ ''}'')"
    using d by (simp add: line_ok_def spaces_def LINELEN_def)
  have cp: "line_ok (content s @ '')'')"
    using length_content[OF ok] d lt by (simp add: line_ok_def LINELEN_def content_def) 
  from fl cb cp reach_pass.IH show ?case
    by (simp add: pass_effect(2)[OF ok reach_pass.hyps(2)])
next
  case (reach_flush s lv)
  note ok = reach_buf_ok[OF reach_flush.hyps(1)]
  from reach_flush.hyps(2,3) have "p_j s \<ge> 78" by (simp add: more_def LINELEN_def)
  with content_line_ok[OF ok] reach_flush.IH show ?case
    by (simp add: width_flush_effect[OF ok])
qed

lemma pretty_lines_ok:
  assumes "int (length line0) = LINELEN + 1"
  shows "\<exists>ls. pretty_format_node_dump_from line0 dump = Some ls \<and> list_all line_ok ls"
proof -
  from pretty_result[OF assms, of dump] obtain s lv where
    r: "pretty_reach dump s lv"
    and f: "pretty_format_node_dump_from line0 dump
               = Some (p_str s @ (if p_j s > 0 then [content s] else []))"
    by blast
  from reach_lines[OF r] content_line_ok[OF reach_buf_ok[OF r]] f show ?thesis
    by simp
qed

section \<open>The passes of format_node_dump\<close>

lemma char_at_nth: "0 \<le> i \<Longrightarrow> i < int (length a) \<Longrightarrow> char_at a i = a ! nat i"
  by (simp add: char_at_def)

lemma copy_line_effect:
  assumes "copy_line dump line i j = (line1, i1, j1)" and "0 \<le> j" and "j \<le> LINELEN"
    and "int (length line) = LINELEN + 1" and "0 \<le> i" and "i \<le> int (length dump)"
  shows "length line1 = length line \<and> j \<le> j1 \<and> j1 \<le> LINELEN \<and> i1 - i = j1 - j
    \<and> i1 \<le> int (length dump)
    \<and> take (nat j1) line1 = take (nat j) line @ take (nat (j1 - j)) (drop (nat i) dump)
    \<and> NUL \<notin> set (take (nat (j1 - j)) (drop (nat i) dump))
    \<and> (j1 < LINELEN \<longrightarrow> char_at dump i1 = NUL)"
  using assms
proof (induction dump line i j rule: copy_line.induct)
  case (1 dump line i j)
  show ?case
  proof (cases "j < LINELEN \<and> char_at dump i \<noteq> NUL")
    case True
    define c where "c = char_at dump i"
    from True have cn: "c \<noteq> NUL" by (simp add: c_def)
    from True "1.prems"(5) have ir: "i < int (length dump)" and c: "c = dump ! nat i"
      by (simp_all add: c_def char_at_def split: if_splits)
    from "1.prems"(1) True have run: "copy_line dump (put line j c) (i + 1) (j + 1) = (line1, i1, j1)"
      unfolding c_def by (subst (asm) copy_line.simps) simp
    from True "1.prems" have pre: "0 \<le> j + 1" "j + 1 \<le> LINELEN" "int (length (put line j c)) = LINELEN + 1"
      "0 \<le> i + 1" "i + 1 \<le> int (length dump)"
      using ir by simp_all
    note ih = "1.IH"[OF True run[unfolded c_def] pre[unfolded c_def], folded c_def]
    from ih have jj: "j + 1 \<le> j1" by simp
    then have n: "nat (j1 - j) = Suc (nat (j1 - (j + 1)))" by simp
    have dr: "drop (nat i) dump = c # drop (nat (i + 1)) dump"
      using ir "1.prems"(5) c by (simp add: nat_add_distrib Cons_nth_drop_Suc)
    have tk: "take (nat (j + 1)) (put line j c) = take (nat j) line @ [c]"
      using "1.prems" True by (simp add: take_nat_put_here)
    from ih have "take (nat j1) line1 = take (nat (j + 1)) (put line j c)
        @ take (nat (j1 - (j + 1))) (drop (nat (i + 1)) dump)"
      by simp
    then have t: "take (nat j1) line1 = take (nat j) line @ take (nat (j1 - j)) (drop (nat i) dump)"
      by (simp add: tk n dr)
    from ih cn have nn: "NUL \<notin> set (take (nat (j1 - j)) (drop (nat i) dump))"
      by (simp add: n dr)
    from ih t nn show ?thesis by simp
  next
    case False
    with "1.prems"(1) have e: "line1 = line" "i1 = i" "j1 = j"
      by (subst (asm) copy_line.simps, simp)+
    from False "1.prems" show ?thesis
      by (auto simp: e char_at_def)
  qed
qed

lemma scan_back_effect:
  "0 \<le> k \<Longrightarrow> (0 < scan_back line k \<longrightarrow> char_at line (scan_back line k) = CHR '' '')
     \<and> (\<forall>m. scan_back line k < m \<and> m \<le> k \<longrightarrow> char_at line m \<noteq> CHR '' '')"
proof (induction line k rule: scan_back.induct)
  case (1 line k)
  show ?case
  proof (cases "k > 0")
    case True
    show ?thesis
    proof (cases "char_at line k = CHR '' ''")
      case sp: True
      with True have "scan_back line k = k" by (subst scan_back.simps) simp
      with sp show ?thesis by auto
    next
      case nsp: False
      with True have e: "scan_back line k = scan_back line (k - 1)" by (subst scan_back.simps) simp
      from "1.IH"[OF True nsp] True
      have ih: "(0 < scan_back line (k - 1) \<longrightarrow> char_at line (scan_back line (k - 1)) = CHR '' '')"
        "\<And>m. scan_back line (k - 1) < m \<Longrightarrow> m \<le> k - 1 \<Longrightarrow> char_at line m \<noteq> CHR '' ''"
        by simp_all
      show ?thesis
      proof (intro conjI allI impI)
        fix m assume "scan_back line k < m \<and> m \<le> k"
        then show "char_at line m \<noteq> CHR '' ''"
          using ih(2)[of m] nsp by (cases "m = k") (simp_all add: e)
      qed (use ih(1) in \<open>simp add: e\<close>)
    qed
  next
    case False
    with "1.prems" have "k = 0" by simp
    then have "scan_back line k = 0" by (subst scan_back.simps) simp
    with \<open>k = 0\<close> show ?thesis by auto
  qed
qed

lemma wrap_pass_effect:
  assumes len: "int (length line) = LINELEN + 1" and i0: "0 \<le> i" and il: "i \<le> int (length dump)"
    and cl: "copy_line dump line i 0 = (line1, i1, j1)" and ne: "char_at dump i1 \<noteq> NUL"
    and br: "break_at dump line1 i1 j1 = (i2, j2)"
  shows "int (length (put line1 j2 NUL)) = LINELEN + 1"
    and "cstr (put line1 j2 NUL) = take (nat j2) (drop (nat i) dump)"
    and "i1 = i + LINELEN" and "i1 < int (length dump)" and "j1 = LINELEN"
    and "0 < j2" and "j2 \<le> LINELEN" and "i2 \<le> int (length dump)"
    and "NUL \<notin> set (take (nat LINELEN) (drop (nat i) dump))"
    and "(char_at dump i1 = CHR '' '' \<and> j2 = LINELEN \<and> i2 = i1 + 1)
       \<or> (char_at dump i1 \<noteq> CHR '' '' \<and> j2 < LINELEN \<and> i2 = i + j2 + 1
            \<and> char_at dump (i + j2) = CHR '' '' \<and> scan_back line1 (j1 - 1) = j2
            \<and> (\<forall>m. j2 < m \<and> m \<le> LINELEN \<longrightarrow> char_at dump (i + m) \<noteq> CHR '' ''))
       \<or> (char_at dump i1 \<noteq> CHR '' '' \<and> j2 = LINELEN \<and> i2 = i1 \<and> scan_back line1 (j1 - 1) = 0
            \<and> (\<forall>m. 0 < m \<and> m \<le> LINELEN \<longrightarrow> char_at dump (i + m) \<noteq> CHR '' ''))"
proof -
  from copy_line_effect[OF cl _ _ len i0 il]
  have ce: "length line1 = length line" "0 \<le> j1" "j1 \<le> LINELEN" "i1 - i = j1" "i1 \<le> int (length dump)"
    "take (nat j1) line1 = take (nat j1) (drop (nat i) dump)"
    "NUL \<notin> set (take (nat j1) (drop (nat i) dump))" "j1 < LINELEN \<longrightarrow> char_at dump i1 = NUL"
    by (simp_all add: LINELEN_def)
  from ce(3,8) ne show j1: "j1 = LINELEN" by auto
  with ce(4) show i1: "i1 = i + LINELEN" by simp
  from char_at_not_NUL[OF ne] show i1l: "i1 < int (length dump)" by simp
  from ce(7) j1 show nn: "NUL \<notin> set (take (nat LINELEN) (drop (nat i) dump))" by simp
  have nth1: "char_at line1 m = char_at dump (i + m)" if "0 \<le> m" "m < LINELEN" for m
  proof -
    from that ce(1) len have "char_at line1 m = line1 ! nat m"
      by (simp add: char_at_def)
    also from that j1 have "\<dots> = take (nat j1) line1 ! nat m" by simp
    also have "\<dots> = take (nat j1) (drop (nat i) dump) ! nat m" by (simp only: ce(6))
    also from that j1 i0 i1 i1l have "\<dots> = dump ! nat (i + m)"
      by (simp add: nat_add_distrib LINELEN_def)
    also from that i0 i1 i1l have "\<dots> = char_at dump (i + m)"
      by (simp add: char_at_def)
    finally show ?thesis .
  qed
  define k where "k = scan_back line1 (j1 - 1)"
  have k: "0 \<le> k" "k \<le> LINELEN - 1"
    using scan_back_ge[of "j1 - 1" line1] scan_back_le[of line1 "j1 - 1"] j1
    by (simp_all add: k_def LINELEN_def)
  from scan_back_effect[of "j1 - 1" line1] j1
  have sb: "0 < k \<Longrightarrow> char_at line1 k = CHR '' ''"
    "\<And>m. k < m \<Longrightarrow> m \<le> LINELEN - 1 \<Longrightarrow> char_at line1 m \<noteq> CHR '' ''"
    by (simp_all add: k_def LINELEN_def)
  from br have br': "(i2, j2) = (if char_at dump i1 = CHR '' '' then (i1 + 1, j1)
      else if k > 0 then (i1 - (j1 - k - 1), k) else (i1, j1))"
    by (auto simp: break_at_def Let_def k_def split: if_splits)
  from br' k j1 show j2: "0 < j2" "j2 \<le> LINELEN"
    by (auto simp: LINELEN_def split: if_splits)
  from br' k j1 i1 i1l i0 show "i2 \<le> int (length dump)"
    by (auto simp: LINELEN_def split: if_splits)
  from ce(1) len show "int (length (put line1 j2 NUL)) = LINELEN + 1" by simp
  have "take (nat j2) line1 = take (nat j2) (drop (nat i) dump)"
    using take_nat_le[OF _ ce(6), of j2] j2 j1 by simp
  moreover have "NUL \<notin> set (take (nat j2) (drop (nat i) dump))"
    using nn j2 by (metis in_set_takeD min.absorb1 nat_mono take_take)
  ultimately show "cstr (put line1 j2 NUL) = take (nat j2) (drop (nat i) dump)"
    using j2 ce(1) len by (subst cstr_put_NUL) simp_all
  have ns: "char_at dump (i + m) \<noteq> CHR '' ''" if "k < m" "m \<le> LINELEN" "char_at dump i1 \<noteq> CHR '' ''" for m
  proof (cases "m = LINELEN")
    case True
    with that i1 show ?thesis by simp
  next
    case False
    with that k sb(2)[of m] nth1[of m] show ?thesis by simp
  qed
  show "(char_at dump i1 = CHR '' '' \<and> j2 = LINELEN \<and> i2 = i1 + 1)
       \<or> (char_at dump i1 \<noteq> CHR '' '' \<and> j2 < LINELEN \<and> i2 = i + j2 + 1
            \<and> char_at dump (i + j2) = CHR '' '' \<and> scan_back line1 (j1 - 1) = j2
            \<and> (\<forall>m. j2 < m \<and> m \<le> LINELEN \<longrightarrow> char_at dump (i + m) \<noteq> CHR '' ''))
       \<or> (char_at dump i1 \<noteq> CHR '' '' \<and> j2 = LINELEN \<and> i2 = i1 \<and> scan_back line1 (j1 - 1) = 0
            \<and> (\<forall>m. 0 < m \<and> m \<le> LINELEN \<longrightarrow> char_at dump (i + m) \<noteq> CHR '' ''))"
  proof (cases "char_at dump i1 = CHR '' ''")
    case True
    with br' j1 show ?thesis by simp
  next
    case nsp: False
    show ?thesis
    proof (cases "k > 0")
      case True
      with br' nsp have e: "i2 = i1 - (j1 - k - 1)" "j2 = k" by simp_all
      from True sb(1) nth1[of k] k have "char_at dump (i + k) = CHR '' ''" by simp
      with e nsp k i1 j1 ns show ?thesis
        unfolding k_def[symmetric] by auto
    next
      case False
      with k have k0: "k = 0" by simp
      with br' nsp have e: "i2 = i1" "j2 = j1" by simp_all
      with nsp j1 k0 ns show ?thesis
        unfolding k_def[symmetric] by auto
    qed
  qed
qed

text \<open>The passes of a run of \<^verbatim>\<open>format_node_dump\<close> on \<open>dump\<close>: buffer, records
  appended so far and cursor at the head of \<^verbatim>\<open>for (;;)\<close>, from any content of the buffer
  at the start.\<close>

inductive wrap_reach :: "string \<Rightarrow> char list \<Rightarrow> string list \<Rightarrow> int \<Rightarrow> bool" for dump :: string where
  wrap_init: "int (length line0) = LINELEN + 1 \<Longrightarrow> wrap_reach dump line0 [] 0"
| wrap_next: "wrap_reach dump line str i \<Longrightarrow> copy_line dump line i 0 = (line1, i1, j1)
    \<Longrightarrow> char_at dump i1 \<noteq> NUL \<Longrightarrow> break_at dump line1 i1 j1 = (i2, j2)
    \<Longrightarrow> wrap_reach dump (put line1 j2 NUL) (str @ [cstr (put line1 j2 NUL)]) i2"

lemma wrap_reach_ok:
  "wrap_reach dump line str i \<Longrightarrow>
     int (length line) = LINELEN + 1 \<and> 0 \<le> i \<and> i \<le> int (length dump) \<and> list_all line_ok str"
proof (induction rule: wrap_reach.induct)
  case (wrap_init line0)
  then show ?case by simp
next
  case (wrap_next line str i line1 i1 j1 i2 j2)
  then have pre: "int (length line) = LINELEN + 1" "0 \<le> i" "i \<le> int (length dump)" by simp_all
  note e = wrap_pass_effect[OF pre wrap_next.hyps(2,3,4)]
  from wrap_pass_progress[OF wrap_next.hyps(2,3,4)] pre have "0 \<le> i2" by simp
  moreover have "line_ok (cstr (put line1 j2 NUL))"
  proof -
    have "NUL \<notin> set (take (nat j2) (drop (nat i) dump))"
      using e(9) e(7) by (metis in_set_takeD min.absorb1 nat_mono take_take)
    moreover have "int (length (take (nat j2) (drop (nat i) dump))) = j2"
      using e(3,4,6,7) pre by (simp add: LINELEN_def)
    ultimately show ?thesis
      using e(6,7) by (auto simp: line_ok_def e(2))
  qed
  ultimately show ?case
    using e(1,8) wrap_next.IH by simp
qed

lemma wrap_result:
  "wrap_reach dump line str i \<Longrightarrow>
     \<exists>line' str' i' line1 i1 j1. wrap_reach dump line' str' i' \<and> copy_line dump line' i' 0 = (line1, i1, j1)
        \<and> char_at dump i1 = NUL \<and> wrap_loop dump line str i = (line1, str', j1)"
proof (induction dump line str i rule: wrap_loop.induct)
  case (1 dump line str i)
  obtain line1 i1 j1 where cl: "copy_line dump line i 0 = (line1, i1, j1)"
    by (cases "copy_line dump line i 0")
  show ?case
  proof (cases "char_at dump i1 = NUL")
    case True
    with cl have "wrap_loop dump line str i = (line1, str, j1)"
      by (subst wrap_loop.simps) simp
    with "1.prems" cl True show ?thesis by blast
  next
    case False
    obtain i2 j2 where br: "break_at dump line1 i1 j1 = (i2, j2)"
      by (cases "break_at dump line1 i1 j1")
    from cl False br have e: "wrap_loop dump line str i
        = wrap_loop dump (put line1 j2 NUL) (str @ [cstr (put line1 j2 NUL)]) i2"
      by (subst wrap_loop.simps) simp
    from "1.IH"[OF cl[symmetric] refl False br[symmetric] wrap_next[OF "1.prems" cl False br]]
    show ?thesis by (simp add: e)
  qed
qed

lemma final_line:
  assumes "int (length line) = LINELEN + 1" and "0 \<le> i" and "i \<le> int (length dump)"
    and "copy_line dump line i 0 = (line1, i1, j1)"
  shows "cstr (put line1 j1 NUL) = take (nat j1) (drop (nat i) dump)"
    and "0 \<le> j1" and "j1 \<le> LINELEN" and "NUL \<notin> set (take (nat j1) (drop (nat i) dump))"
    and "i1 = i + j1"
proof -
  from copy_line_effect[OF assms(4) _ _ assms(1,2,3)]
  have ce: "length line1 = length line" "0 \<le> j1" "j1 \<le> LINELEN" "i1 - i = j1"
    "take (nat j1) line1 = take (nat j1) (drop (nat i) dump)"
    "NUL \<notin> set (take (nat j1) (drop (nat i) dump))"
    by (simp_all add: LINELEN_def)
  then show "0 \<le> j1" "j1 \<le> LINELEN" "NUL \<notin> set (take (nat j1) (drop (nat i) dump))" "i1 = i + j1"
    by simp_all
  from ce assms(1) show "cstr (put line1 j1 NUL) = take (nat j1) (drop (nat i) dump)"
    by (subst cstr_put_NUL) simp_all
qed

lemma format_result:
  assumes "int (length line0) = LINELEN + 1"
  shows "\<exists>line str i line1 i1 j1. wrap_reach dump line str i \<and> copy_line dump line i 0 = (line1, i1, j1)
           \<and> char_at dump i1 = NUL
           \<and> format_node_dump_from line0 dump
                = str @ (if j1 > 0 then [take (nat j1) (drop (nat i) dump)] else [])"
proof -
  from wrap_result[OF wrap_init[OF assms], of dump] obtain line str i line1 i1 j1 where
    r: "wrap_reach dump line str i" and cl: "copy_line dump line i 0 = (line1, i1, j1)"
    and e: "char_at dump i1 = NUL" and w: "wrap_loop dump line0 [] 0 = (line1, str, j1)"
    by blast
  from wrap_reach_ok[OF r] have pre: "int (length line) = LINELEN + 1" "0 \<le> i" "i \<le> int (length dump)"
    by simp_all
  from final_line(1)[OF pre cl] w
  have "format_node_dump_from line0 dump = str @ (if j1 > 0 then [take (nat j1) (drop (nat i) dump)] else [])"
    by (simp add: format_node_dump_from_def)
  with r cl e show ?thesis by blast
qed

lemma format_lines_ok:
  assumes "int (length line0) = LINELEN + 1"
  shows "list_all line_ok (format_node_dump_from line0 dump)"
proof -
  from format_result[OF assms, of dump] obtain line str i line1 i1 j1 where
    r: "wrap_reach dump line str i" and cl: "copy_line dump line i 0 = (line1, i1, j1)"
    and f: "format_node_dump_from line0 dump
                = str @ (if j1 > 0 then [take (nat j1) (drop (nat i) dump)] else [])"
    by blast
  from wrap_reach_ok[OF r] have pre: "int (length line) = LINELEN + 1" "0 \<le> i" "i \<le> int (length dump)"
    and ls: "list_all line_ok str"
    by simp_all
  note fl = final_line[OF pre cl]
  have "int (length (take (nat j1) (drop (nat i) dump))) = j1"
    using fl(2,5) pre copy_line_effect[OF cl _ _ pre] by (auto simp: LINELEN_def)
  with fl have "j1 > 0 \<Longrightarrow> line_ok (take (nat j1) (drop (nat i) dump))"
    by (auto simp: line_ok_def)
  with ls show ?thesis by (simp add: f)
qed

text \<open>A line without the spaces at its end.\<close>

definition strip_trailing :: "string \<Rightarrow> string" where
  "strip_trailing l = rev (dropWhile (\<lambda>c. c = CHR '' '') (rev l))"

section \<open>Runs on given inputs\<close>

lemma scenario_c_eval:
  "pretty_format_node_dump_lines ''{A :B 1 {C :D 2}}'' =
     Some [''   {A '', ''   :B 1 '', ''      {C '', ''      :D 2'', ''      }'', ''   }'']"
  by code_simp

lemma close_paren_eval:
  "pretty_format_node_dump_lines ''{a)'' = Some [''   {a)'', ''   '']"
  by code_simp

lemma line_init_length: "int (length line_init) = LINELEN + 1"
  by (simp add: line_init_def LINELEN_def)

lemma list_all_mono: "list_all P xs \<Longrightarrow> (\<And>x. P x \<Longrightarrow> Q x) \<Longrightarrow> list_all Q xs"
  by (induction xs) auto

lemma width_break_eval:
  "pretty_format_node_dump_lines (replicate 77 (CHR ''a'') @ ''))'')
     = Some [replicate 77 (CHR ''a'') @ '')'', '')'']"
  by code_simp

section \<open>Tokens and line breaks of format_node_dump\<close>

text \<open>The pass of \<^verbatim>\<open>for (;;)\<close> that starts at cursor \<open>i\<close> takes the branch in which
  the backward scan ends with \<open>k = 0\<close>: input is left, the next character is not a
  space, and the whole buffer is printed.\<close>

definition hard_split :: "string \<Rightarrow> char list \<Rightarrow> int \<Rightarrow> bool" where
  "hard_split dump line i =
     (case copy_line dump line i 0 of (line1, i1, j1) \<Rightarrow>
        char_at dump i1 \<noteq> NUL \<and> char_at dump i1 \<noteq> CHR '' '' \<and> \<not> 0 < scan_back line1 (j1 - 1))"

text \<open>The pass that starts at \<open>i\<close> puts its line break inside a token: the record ends
  with the character before the new cursor, nothing is dropped between the two, and
  neither this character nor the next one is a space.\<close>

definition splits_token :: "string \<Rightarrow> char list \<Rightarrow> int \<Rightarrow> bool" where
  "splits_token dump line i =
     (case copy_line dump line i 0 of (line1, i1, j1) \<Rightarrow>
        char_at dump i1 \<noteq> NUL \<and>
        (case break_at dump line1 i1 j1 of (i2, j2) \<Rightarrow>
           i2 = i + j2 \<and> char_at dump (i2 - 1) \<noteq> CHR '' '' \<and> char_at dump i2 \<noteq> CHR '' ''))"

text \<open>\<open>n\<close> consecutive characters of \<open>dump\<close>, from position \<open>s\<close> on, none of them
  a space. A token (a maximal run of non-space characters) has more than 78 characters
  exactly when there is such a run of 79.\<close>

definition run_at :: "string \<Rightarrow> nat \<Rightarrow> nat \<Rightarrow> bool" where
  "run_at dump s n \<longleftrightarrow> s + n \<le> length dump \<and> CHR '' '' \<notin> set (take n (drop s dump))"

lemma run_at_char:
  assumes "run_at dump s n" and "int s \<le> m" and "m < int s + int n"
  shows "char_at dump m \<noteq> CHR '' ''"
proof -
  define k where "k = nat m - s"
  from assms have k: "k < n" "s + k = nat m" "s + n \<le> length dump" "0 \<le> m"
    by (auto simp: run_at_def k_def)
  then have "take n (drop s dump) ! k = dump ! nat m"
    by simp
  moreover from k have "take n (drop s dump) ! k \<in> set (take n (drop s dump))"
    by (intro nth_mem) simp
  ultimately have "dump ! nat m \<noteq> CHR '' ''"
    using assms(1) by (auto simp: run_at_def)
  moreover from k have "nat m < length dump" by linarith
  ultimately show ?thesis using k(4) by (simp add: char_at_def)
qed

lemma run_atI:
  assumes "s + n \<le> length dump"
    and "\<And>m. int s \<le> m \<Longrightarrow> m < int s + int n \<Longrightarrow> char_at dump m \<noteq> CHR '' ''"
  shows "run_at dump s n"
proof -
  have "x \<noteq> CHR '' ''" if "x \<in> set (take n (drop s dump))" for x
  proof -
    from that obtain k where k: "k < length (take n (drop s dump))" "x = take n (drop s dump) ! k"
      by (auto simp: in_set_conv_nth)
    with assms(1) have kn: "k < n" "x = dump ! (s + k)" by simp_all
    have "nat (int s + int k) = s + k" by simp
    with assms(2)[of "int s + int k"] assms(1) kn show ?thesis by (simp add: char_at_def)
  qed
  with assms(1) show ?thesis by (auto simp: run_at_def)
qed

lemma char_at_NUL_end:
  assumes "NUL \<notin> set dump" and "0 \<le> i" and "i \<le> int (length dump)"
  shows "char_at dump i = NUL \<longleftrightarrow> i = int (length dump)"
proof (cases "i < int (length dump)")
  case True
  with assms(2) have "dump ! nat i \<in> set dump" by (intro nth_mem) simp
  with assms(1) have "dump ! nat i \<noteq> NUL" by metis
  with True assms(2) show ?thesis by (simp add: char_at_def)
next
  case False
  with assms(3) show ?thesis by (simp add: char_at_def)
qed

lemma hard_split_iff:
  assumes r: "wrap_reach dump line str i"
  shows "splits_token dump line i \<longleftrightarrow> hard_split dump line i"
    and "hard_split dump line i \<Longrightarrow> run_at dump (nat i + 1) 78"
proof -
  from wrap_reach_ok[OF r] have pre: "int (length line) = LINELEN + 1" "0 \<le> i" "i \<le> int (length dump)"
    by simp_all
  obtain line1 i1 j1 where cl: "copy_line dump line i 0 = (line1, i1, j1)"
    by (cases "copy_line dump line i 0")
  obtain i2 j2 where br: "break_at dump line1 i1 j1 = (i2, j2)"
    by (cases "break_at dump line1 i1 j1")
  show "splits_token dump line i \<longleftrightarrow> hard_split dump line i"
  proof (cases "char_at dump i1 = NUL")
    case True
    with cl show ?thesis by (simp add: splits_token_def hard_split_def)
  next
    case False
    note e = wrap_pass_effect[OF pre cl False br]
    have st: "splits_token dump line i
        \<longleftrightarrow> i2 = i + j2 \<and> char_at dump (i2 - 1) \<noteq> CHR '' '' \<and> char_at dump i2 \<noteq> CHR '' ''"
      by (simp add: splits_token_def cl br False)
    have hs: "hard_split dump line i
        \<longleftrightarrow> char_at dump i1 \<noteq> CHR '' '' \<and> \<not> 0 < scan_back line1 (j1 - 1)"
      by (simp add: hard_split_def cl False)
    from e(10) consider
      (a) "char_at dump i1 = CHR '' ''" "j2 = LINELEN" "i2 = i1 + 1"
      | (b) "j2 < LINELEN" "i2 = i + j2 + 1" "scan_back line1 (j1 - 1) = j2"
      | (c) "char_at dump i1 \<noteq> CHR '' ''" "j2 = LINELEN" "i2 = i1" "scan_back line1 (j1 - 1) = 0"
        "\<forall>m. 0 < m \<and> m \<le> LINELEN \<longrightarrow> char_at dump (i + m) \<noteq> CHR '' ''"
      by blast
    then show ?thesis
    proof cases
      case a
      with e(3) show ?thesis by (simp add: st hs)
    next
      case b
      with e(6) show ?thesis by (simp add: st hs)
    next
      case c
      from c(5)[rule_format, of "LINELEN - 1"] have "char_at dump (i + LINELEN - 1) \<noteq> CHR '' ''"
        by (simp add: LINELEN_def algebra_simps)
      with c e(3) show ?thesis by (simp add: st hs)
    qed
  qed
  assume h: "hard_split dump line i"
  with cl have ne: "char_at dump i1 \<noteq> NUL" by (simp add: hard_split_def)
  note e = wrap_pass_effect[OF pre cl ne br]
  from h cl e(10) have ns: "\<And>m. 0 < m \<Longrightarrow> m \<le> LINELEN \<Longrightarrow> char_at dump (i + m) \<noteq> CHR '' ''"
    by (auto simp: hard_split_def)
  show "run_at dump (nat i + 1) 78"
  proof (rule run_atI)
    from e(3,4) pre show "nat i + 1 + 78 \<le> length dump" by (simp add: LINELEN_def)
    fix m assume "int (nat i + 1) \<le> m" "m < int (nat i + 1) + int 78"
    with ns[of "m - i"] pre show "char_at dump m \<noteq> CHR '' ''" by (simp add: LINELEN_def)
  qed
qed

lemma long_token_hard_split:
  assumes nn: "NUL \<notin> set dump" and run: "run_at dump s 79"
  shows "wrap_reach dump line str i \<Longrightarrow> i \<le> int s
           \<Longrightarrow> \<exists>line' str' i'. wrap_reach dump line' str' i' \<and> hard_split dump line' i'"
proof (induction "nat (int (length dump) - i)" arbitrary: line str i rule: less_induct)
  case less
  note r = less.prems(1)
  from wrap_reach_ok[OF r] have pre: "int (length line) = LINELEN + 1" "0 \<le> i" "i \<le> int (length dump)"
    by simp_all
  obtain line1 i1 j1 where cl: "copy_line dump line i 0 = (line1, i1, j1)"
    by (cases "copy_line dump line i 0")
  obtain i2 j2 where br: "break_at dump line1 i1 j1 = (i2, j2)"
    by (cases "break_at dump line1 i1 j1")
  from run have sl: "int s + 79 \<le> int (length dump)" by (simp add: run_at_def)
  have ne: "char_at dump i1 \<noteq> NUL"
  proof
    assume "char_at dump i1 = NUL"
    moreover from copy_line_effect[OF cl _ _ pre]
    have "i1 - i = j1" "j1 \<le> LINELEN" "0 \<le> j1" "i1 \<le> int (length dump)" by (simp_all add: LINELEN_def)
    ultimately have "int (length dump) \<le> i + LINELEN"
      using char_at_NUL_end[OF nn, of i1] pre by simp
    with sl less.prems(2) show False by (simp add: LINELEN_def)
  qed
  note e = wrap_pass_effect[OF pre cl ne br]
  note nx = wrap_next[OF r cl ne br]
  from wrap_pass_progress[OF cl ne br] e(8)
  have dec: "nat (int (length dump) - i2) < nat (int (length dump) - i)" by simp
  from e(10) consider
    (a) "char_at dump i1 = CHR '' ''" "i2 = i1 + 1"
    | (b) "j2 < LINELEN" "i2 = i + j2 + 1" "char_at dump (i + j2) = CHR '' ''"
    | (c) "char_at dump i1 \<noteq> CHR '' ''" "scan_back line1 (j1 - 1) = 0"
    by blast
  then show ?case
  proof cases
    case a
    have "i1 < int s"
    proof (rule ccontr)
      assume "\<not> i1 < int s"
      with e(3) less.prems(2) have "int s \<le> i1" "i1 < int s + int 79" by (simp_all add: LINELEN_def)
      from run_at_char[OF run this] a(1) show False by simp
    qed
    with a(2) have "i2 \<le> int s" by simp
    from less.hyps[OF dec nx this] show ?thesis .
  next
    case b
    have "i + j2 < int s"
    proof (rule ccontr)
      assume "\<not> i + j2 < int s"
      with b(1) less.prems(2) have "int s \<le> i + j2" "i + j2 < int s + int 79" by (simp_all add: LINELEN_def)
      from run_at_char[OF run this] b(3) show False by simp
    qed
    with b(2) have "i2 \<le> int s" by simp
    from less.hyps[OF dec nx this] show ?thesis .
  next
    case c
    with cl ne have "hard_split dump line i" by (simp add: hard_split_def)
    with r show ?thesis by blast
  qed
qed

lemma long_token_eval:
  "hard_split (replicate 79 (CHR ''a'')) line_init 0"
  "splits_token (replicate 79 (CHR ''a'')) line_init 0"
  by code_simp+

lemma short_token_eval:
  "hard_split (CHR '' '' # replicate 78 (CHR ''a'')) line_init 0"
  "format_node_dump_lines (CHR '' '' # replicate 78 (CHR ''a''))
     = [CHR '' '' # replicate 77 (CHR ''a''), ''a'']"
  by code_simp+

text \<open>Splitting at separators: the maximal runs of characters that are not separators,
  in order; \<open>cur\<close> is the run being read.\<close>

fun split_acc :: "('a \<Rightarrow> bool) \<Rightarrow> 'a list \<Rightarrow> 'a list \<Rightarrow> 'a list list" where
  "split_acc sep cur [] = (if cur = [] then [] else [cur])"
| "split_acc sep cur (x # xs) =
     (if sep x then (if cur = [] then split_acc sep [] xs else cur # split_acc sep [] xs)
      else split_acc sep (cur @ [x]) xs)"

text \<open>White space, as \<^verbatim>\<open>isspace\<close> has it in the C locale.\<close>

definition is_white :: "char \<Rightarrow> bool" where
  "is_white c \<longleftrightarrow> c = CHR '' '' \<or> c = CHR 0x09 \<or> c = CHR 0x0A \<or> c = CHR 0x0B \<or> c = CHR 0x0C \<or> c = CHR 0x0D"

text \<open>The tokens of a text: its maximal runs of characters other than white space.\<close>

definition words :: "string \<Rightarrow> string list" where
  "words xs = split_acc is_white [] xs"

text \<open>A character of the output against the character of the input it stands for:
  the same one, or a newline in place of a space.\<close>

definition break_of :: "char \<Rightarrow> char \<Rightarrow> bool" where
  "break_of x y \<longleftrightarrow> x = y \<or> (x = NEWLINE \<and> y = CHR '' '')"

lemma split_acc_related:
  "list_all2 break_of xs ys \<Longrightarrow> split_acc is_white cur xs = split_acc is_white cur ys"
proof (induction xs ys arbitrary: cur rule: list_all2_induct)
  case Nil
  show ?case by simp
next
  case (Cons x xs y ys)
  from Cons.hyps(1) have "x = y \<or> (is_white x \<and> is_white y)"
    by (auto simp: break_of_def is_white_def NEWLINE_def)
  with Cons.IH show ?case by auto
qed

lemma split_acc_trailing:
  "sep c \<Longrightarrow> split_acc sep cur (xs @ [c]) = split_acc sep cur xs"
  by (induction xs arbitrary: cur) auto

lemma break_of_refl: "list_all2 break_of xs xs"
  by (simp add: list_all2_refl break_of_def)

lemma str_data_append: "str_data (a @ b) = str_data a @ str_data b"
  by (simp add: str_data_def)

lemma str_data_single: "str_data [l] = l @ [NEWLINE]"
  by (simp add: str_data_def)

lemma take_step:
  assumes "0 \<le> i" and "0 \<le> j" and "i + j < int (length dump)"
  shows "take (nat (i + j + 1)) dump
           = take (nat i) dump @ take (nat j) (drop (nat i) dump) @ [char_at dump (i + j)]"
proof -
  from assms have n: "nat (i + j + 1) = Suc (nat i + nat j)" "nat (i + j) = nat i + nat j"
    "nat i + nat j < length dump"
    by linarith+
  have "take (Suc (nat i + nat j)) dump = take (nat i + nat j) dump @ [dump ! (nat i + nat j)]"
    using n(3) by (simp add: take_Suc_conv_app_nth)
  also have "take (nat i + nat j) dump = take (nat i) dump @ take (nat j) (drop (nat i) dump)"
    by (simp add: take_add)
  finally show ?thesis using assms n by (simp add: char_at_def)
qed

lemma wrap_reach_text:
  assumes nh: "\<And>line str i. wrap_reach dump line str i \<Longrightarrow> \<not> hard_split dump line i"
  shows "wrap_reach dump line str i \<Longrightarrow> list_all2 break_of (str_data str) (take (nat i) dump)"
proof (induction rule: wrap_reach.induct)
  case (wrap_init line0)
  show ?case by (simp add: str_data_def)
next
  case (wrap_next line str i line1 i1 j1 i2 j2)
  from wrap_reach_ok[OF wrap_next.hyps(1)]
  have pre: "int (length line) = LINELEN + 1" "0 \<le> i" "i \<le> int (length dump)" by simp_all
  note e = wrap_pass_effect[OF pre wrap_next.hyps(2,3,4)]
  from nh[OF wrap_next.hyps(1)] wrap_next.hyps(2,3)
  have "char_at dump i1 = CHR '' '' \<or> 0 < scan_back line1 (j1 - 1)"
    by (auto simp: hard_split_def)
  with e(10) e(3) have br: "i2 = i + j2 + 1" "char_at dump (i + j2) = CHR '' ''"
    by auto
  from e(3,4,6,7) have lt: "i + j2 < int (length dump)" by simp
  from e(6) have j0: "0 \<le> j2" by simp
  have "take (nat i2) dump = take (nat i) dump @ take (nat j2) (drop (nat i) dump) @ '' ''"
    using take_step[OF pre(2) j0 lt] br by simp
  moreover have "str_data (str @ [cstr (put line1 j2 NUL)])
      = str_data str @ take (nat j2) (drop (nat i) dump) @ [NEWLINE]"
    by (simp add: str_data_append str_data_single e(2))
  moreover have "list_all2 break_of (take (nat j2) (drop (nat i) dump) @ [NEWLINE])
      (take (nat j2) (drop (nat i) dump) @ '' '')"
    by (intro list_all2_appendI break_of_refl) (simp add: break_of_def)
  ultimately show ?case
    using wrap_next.IH by (simp add: list_all2_appendI)
qed

lemma format_text:
  assumes nn: "NUL \<notin> set dump" and len: "int (length line0) = LINELEN + 1"
    and nh: "\<And>line str i. wrap_reach dump line str i \<Longrightarrow> \<not> hard_split dump line i"
  shows "\<exists>tail. (tail = [] \<or> tail = '' '')
           \<and> list_all2 break_of (str_data (format_node_dump_from line0 dump)) (dump @ tail)"
proof -
  from format_result[OF len, of dump] obtain line str i line1 i1 j1 where
    r: "wrap_reach dump line str i" and cl: "copy_line dump line i 0 = (line1, i1, j1)"
    and e: "char_at dump i1 = NUL"
    and f: "format_node_dump_from line0 dump
                = str @ (if j1 > 0 then [take (nat j1) (drop (nat i) dump)] else [])"
    by blast
  from wrap_reach_ok[OF r] have pre: "int (length line) = LINELEN + 1" "0 \<le> i" "i \<le> int (length dump)"
    by simp_all
  note fl = final_line[OF pre cl]
  from copy_line_effect[OF cl _ _ pre] have "i1 \<le> int (length dump)" by (simp add: LINELEN_def)
  with char_at_NUL_end[OF nn, of i1] e fl(2,5) pre have i1: "i + j1 = int (length dump)" by simp
  then have rest: "take (nat j1) (drop (nat i) dump) = drop (nat i) dump"
    using pre fl(2) by simp
  note inv = wrap_reach_text[OF nh r]
  show ?thesis
  proof (cases "j1 > 0")
    case True
    have "list_all2 break_of (str_data str @ drop (nat i) dump @ [NEWLINE])
        (take (nat i) dump @ drop (nat i) dump @ '' '')"
    proof (intro list_all2_appendI inv break_of_refl)
      show "list_all2 break_of [NEWLINE] '' ''" by (simp add: break_of_def)
    qed
    then have "list_all2 break_of (str_data str @ drop (nat i) dump @ [NEWLINE]) (dump @ '' '')"
      by (simp only: append_assoc[symmetric] append_take_drop_id)
    with True have "list_all2 break_of (str_data (format_node_dump_from line0 dump)) (dump @ '' '')"
      by (simp add: f rest str_data_append str_data_single)
    then show ?thesis by blast
  next
    case False
    with fl(2) i1 pre have "take (nat i) dump = dump" by simp
    with inv False show ?thesis by (auto simp: f)
  qed
qed

lemma long_token_lines:
  "format_node_dump (replicate 79 (CHR ''a''))
     = replicate 78 (CHR ''a'') @ [NEWLINE] @ ''a'' @ [NEWLINE]"
  by code_simp

section \<open>Markers and nesting depth of the pretty printer\<close>

text \<open>What the switch does to \<open>indentLev\<close> when it reads \<open>c\<close> at level \<open>l\<close>.\<close>

definition lev_step :: "char \<Rightarrow> int \<Rightarrow> int" where
  "lev_step c l = (if c = CHR ''}'' then (if l > 0 then l - 1 else l)
                   else if c = CHR ''{'' then l + 1 else l)"

text \<open>The levels after each marker of a string read from level \<open>l\<close>, and the level
  after the whole string.\<close>

fun levels :: "int \<Rightarrow> string \<Rightarrow> int list" where
  "levels l [] = []"
| "levels l (c # cs) = (if is_marker c then [lev_step c l] else []) @ levels (lev_step c l) cs"

definition final_level :: "int \<Rightarrow> string \<Rightarrow> int" where
  "final_level l cs = foldl (\<lambda>l c. lev_step c l) l cs"

text \<open>A run on \<open>dump\<close> has reached the end of the input in state \<open>s\<close>, with the levels
  \<open>lv\<close> after its markers.\<close>

definition pretty_done :: "string \<Rightarrow> pstate \<Rightarrow> int list \<Rightarrow> bool" where
  "pretty_done dump s lv \<longleftrightarrow> pretty_reach dump s lv \<and> char_at dump (p_i s) = NUL"

text \<open>A text with its line breaks read as spaces.\<close>

definition respace :: "string \<Rightarrow> string" where
  "respace = map (\<lambda>c. if c = NEWLINE then CHR '' '' else c)"

lemma levels_append: "levels l (xs @ ys) = levels l xs @ levels (final_level l xs) ys"
  by (induction xs arbitrary: l) (simp_all add: final_level_def)

lemma final_level_append: "final_level l (xs @ ys) = final_level (final_level l xs) ys"
  by (simp add: final_level_def)

lemma final_level_single: "final_level l [c] = lev_step c l"
  by (simp add: final_level_def)

lemma lev_step_other: "\<not> is_marker c \<Longrightarrow> lev_step c l = l"
  by (auto simp: lev_step_def is_marker_def)

lemma levels_spaces [simp]: "levels l (replicate n (CHR '' '')) = []"
  by (induction n) (simp_all add: is_marker_def lev_step_def)

lemma final_level_spaces [simp]: "final_level l (replicate n (CHR '' '')) = l"
  by (induction n) (simp_all add: final_level_def lev_step_def)

lemma levels_filter: "levels l (filter is_marker xs) = levels l xs"
  by (induction xs arbitrary: l) (simp_all add: lev_step_other)

lemma skip_spaces_effect:
  "0 \<le> i \<Longrightarrow> i < int (length dump) \<Longrightarrow>
     \<exists>n. skip_spaces dump i = i + int n \<and> i + int n < int (length dump)
        \<and> take (nat (i + int n + 1)) dump = take (nat (i + 1)) dump @ replicate n (CHR '' '')"
proof (induction dump i rule: skip_spaces.induct)
  case (1 dump i)
  show ?case
  proof (cases "char_at dump (i + 1) = CHR '' ''")
    case True
    then have lt: "i + 1 < int (length dump)" and nth: "dump ! nat (i + 1) = CHR '' ''"
      using "1.prems"(1) by (auto simp: char_at_def NUL_def split: if_splits)
    from "1.IH"[OF True _ lt] "1.prems"(1) obtain n where
      n: "skip_spaces dump (i + 1) = i + 1 + int n" "i + 1 + int n < int (length dump)"
        "take (nat (i + 1 + int n + 1)) dump = take (nat (i + 1 + 1)) dump @ replicate n (CHR '' '')"
      by auto
    have "take (nat (i + 1 + 1)) dump = take (nat (i + 1)) dump @ '' ''"
      using lt nth "1.prems"(1) by (simp add: nat_add_distrib take_Suc_conv_app_nth)
    with n(3) have "take (nat (i + int (Suc n) + 1)) dump
        = take (nat (i + 1)) dump @ replicate (Suc n) (CHR '' '')"
      by (simp add: add.commute add.left_commute replicate_app_Cons_same)
    moreover from True n(1) have "skip_spaces dump i = i + int (Suc n)"
      by (subst skip_spaces.simps) simp
    moreover from n(2) have "i + int (Suc n) < int (length dump)" by simp
    ultimately show ?thesis by blast
  next
    case False
    then have "skip_spaces dump i = i" by (subst skip_spaces.simps) simp
    with "1.prems" show ?thesis by (intro exI[of _ 0]) simp
  qed
qed

lemma pass_input:
  assumes ok: "buf_ok s" and m: "more dump s" and i0: "0 \<le> p_i s"
  shows "\<exists>n. take (nat (p_i (pretty_pass dump s))) dump
                = take (nat (p_i s)) dump @ [char_at dump (p_i s)] @ replicate n (CHR '' '')
            \<and> p_i (pretty_pass dump s) \<le> int (length dump) \<and> 0 \<le> p_i (pretty_pass dump s)"
proof -
  from m have "char_at dump (p_i s) \<noteq> NUL" by (simp add: more_def)
  with i0 have lt: "p_i s < int (length dump)" and c: "char_at dump (p_i s) = dump ! nat (p_i s)"
    by (auto simp: char_at_def split: if_splits)
  have t1: "take (nat (p_i s + 1)) dump = take (nat (p_i s)) dump @ [char_at dump (p_i s)]"
    using lt i0 c by (simp add: nat_add_distrib take_Suc_conv_app_nth)
  from skip_spaces_effect[OF i0 lt] obtain n where
    n: "skip_spaces dump (p_i s) = p_i s + int n" "p_i s + int n < int (length dump)"
      "take (nat (p_i s + int n + 1)) dump = take (nat (p_i s + 1)) dump @ replicate n (CHR '' '')"
    by blast
  from pass_effect(4)[OF ok m]
  consider "p_i (pretty_pass dump s) = skip_spaces dump (p_i s) + 1"
    | "p_i (pretty_pass dump s) = p_i s + 1"
    by (auto split: if_splits)
  then show ?thesis
  proof cases
    case 1
    with n t1 i0 show ?thesis by (intro exI[of _ n]) simp
  next
    case 2
    with t1 lt i0 show ?thesis by (intro exI[of _ 0]) simp
  qed
qed

lemma content_at_indent: "buf_ok s \<Longrightarrow> p_j s = indentDist s \<Longrightarrow> content s = spaces (indentDist s)"
  using buf_okD(8)[of s] by (simp add: content_def)

lemma filter_spaces [simp]: "\<not> P (CHR '' '') \<Longrightarrow> filter P (spaces n) = []"
  by (simp add: spaces_def)

lemma pass_output:
  assumes ok: "buf_ok s" and m: "more dump s" and P: "\<not> P (CHR '' '')"
  shows "filter P (concat (p_str (pretty_pass dump s)) @ content (pretty_pass dump s))
           = filter P (concat (p_str s) @ content s) @ filter P [char_at dump (p_i s)]"
proof -
  define c where "c = char_at dump (p_i s)"
  define fl where "fl = (if p_j s \<noteq> indentDist s then [content s] else [])"
  have fl: "filter P (concat fl) = filter P (content s)"
    using content_at_indent[OF ok] P by (simp add: fl_def)
  note e = pass_effect[OF ok m, folded c_def fl_def]
  consider (cb) "c = CHR ''}''" | (cpb) "c = CHR '')''" "char_at dump (p_i s + 1) \<noteq> CHR '')''"
    | (cps) "c = CHR '')''" "char_at dump (p_i s + 1) = CHR '')''"
    | (ob) "c = CHR ''{'' \<or> c = CHR '':''"
    | (other) "c \<noteq> CHR ''}''" "c \<noteq> CHR '')''" "c \<noteq> CHR ''{''" "c \<noteq> CHR '':''"
    by blast
  then show ?thesis
  proof cases
    case cb
    with e(2,5) fl P show ?thesis by (simp add: c_def[symmetric])
  next
    case cpb
    with e(2,5) P show ?thesis by (simp add: c_def[symmetric])
  next
    case cps
    with e(2,5) show ?thesis by (simp add: c_def[symmetric])
  next
    case ob
    with e(2,5) fl P show ?thesis by (auto simp: c_def[symmetric])
  next
    case other
    with e(2,5) show ?thesis by (simp add: c_def[symmetric])
  qed
qed

lemma reach_input:
  "pretty_reach dump s lv \<Longrightarrow>
     0 \<le> p_i s \<and> p_i s \<le> int (length dump) \<and> NUL \<notin> set (take (nat (p_i s)) dump)
     \<and> lv = levels 0 (take (nat (p_i s)) dump)
     \<and> indentLev s = final_level 0 (take (nat (p_i s)) dump)"
proof (induction rule: pretty_reach.induct)
  case (reach_init line0)
  then show ?case by (simp add: init_effect final_level_def)
next
  case (reach_pass s lv)
  note ok = reach_buf_ok[OF reach_pass.hyps(1)]
  note m = reach_pass.hyps(2)
  from reach_pass.IH have i0: "0 \<le> p_i s" by simp
  define c where "c = char_at dump (p_i s)"
  from m have cn: "c \<noteq> NUL" by (simp add: more_def c_def)
  from pass_input[OF ok m i0] obtain n where
    n: "take (nat (p_i (pretty_pass dump s))) dump
          = take (nat (p_i s)) dump @ [c] @ replicate n (CHR '' '')"
      "p_i (pretty_pass dump s) \<le> int (length dump)" "0 \<le> p_i (pretty_pass dump s)"
    unfolding c_def by blast
  have l: "indentLev (pretty_pass dump s) = lev_step c (indentLev s)"
    using pass_effect(3)[OF ok m] by (simp add: lev_step_def c_def)
  have "take (nat (p_i (pretty_pass dump s))) dump
      = (take (nat (p_i s)) dump @ [c]) @ replicate n (CHR '' '')"
    using n(1) by simp
  then have "levels 0 (take (nat (p_i (pretty_pass dump s))) dump)
        = levels 0 (take (nat (p_i s)) dump)
          @ (if is_marker c then [lev_step c (final_level 0 (take (nat (p_i s)) dump))] else [])"
      "final_level 0 (take (nat (p_i (pretty_pass dump s))) dump)
        = lev_step c (final_level 0 (take (nat (p_i s)) dump))"
    by (simp_all only: levels_append final_level_append levels_spaces final_level_spaces
        final_level_single levels.simps append_Nil2 append_Nil)
  with reach_pass.IH cn n l show ?case
    by (simp add: c_def[symmetric])
next
  case (reach_flush s lv)
  note ok = reach_buf_ok[OF reach_flush.hyps(1)]
  from reach_flush.IH show ?case by (simp add: width_flush_effect[OF ok])
qed

lemma reach_output:
  assumes P: "\<not> P (CHR '' '')"
  shows "pretty_reach dump s lv \<Longrightarrow>
     filter P (concat (p_str s) @ content s) = filter P (take (nat (p_i s)) dump)"
proof (induction rule: pretty_reach.induct)
  case (reach_init line0)
  then show ?case by (simp add: init_effect)
next
  case (reach_pass s lv)
  note ok = reach_buf_ok[OF reach_pass.hyps(1)]
  note m = reach_pass.hyps(2)
  from reach_input[OF reach_pass.hyps(1)] have i0: "0 \<le> p_i s" by simp
  from pass_input[OF ok m i0] obtain n where
    n: "take (nat (p_i (pretty_pass dump s))) dump
          = take (nat (p_i s)) dump @ [char_at dump (p_i s)] @ replicate n (CHR '' '')"
    by blast
  from pass_output[where P=P, OF ok m P] reach_pass.IH P show ?case
    by (simp add: n)
next
  case (reach_flush s lv)
  note ok = reach_buf_ok[OF reach_flush.hyps(1)]
  from reach_flush.IH P show ?case by (simp add: width_flush_effect[OF ok])
qed

lemma take_cstr:
  assumes "0 \<le> i" and "i \<le> int (length dump)" and "NUL \<notin> set (take (nat i) dump)"
    and "char_at dump i = NUL"
  shows "take (nat i) dump = cstr dump"
proof -
  have d: "dump = take (nat i) dump @ drop (nat i) dump" by simp
  have "takeWhile (\<lambda>c. c \<noteq> NUL) (drop (nat i) dump) = []"
  proof (cases "i < int (length dump)")
    case True
    with assms(1,4) have "dump ! nat i = NUL" by (simp add: char_at_def)
    with True assms(1) have "drop (nat i) dump = NUL # drop (Suc (nat i)) dump"
      by (simp add: Cons_nth_drop_Suc[symmetric])
    then show ?thesis by simp
  next
    case False
    with assms(2) show ?thesis by simp
  qed
  moreover have "takeWhile (\<lambda>c. c \<noteq> NUL) (take (nat i) dump @ drop (nat i) dump)
      = take (nat i) dump @ takeWhile (\<lambda>c. c \<noteq> NUL) (drop (nat i) dump)"
    using assms(3) by (intro takeWhile_append2) auto
  ultimately have "takeWhile (\<lambda>c. c \<noteq> NUL) (take (nat i) dump @ drop (nat i) dump) = take (nat i) dump"
    by simp
  then show ?thesis by (simp add: cstr_def)
qed

lemma done_levels: "pretty_done dump s lv \<Longrightarrow> lv = levels 0 (cstr dump)"
  using reach_input[of dump s lv] take_cstr[of "p_i s" dump]
  by (auto simp: pretty_done_def)

lemma cstr_id: "NUL \<notin> set xs \<Longrightarrow> cstr xs = xs"
  by (auto simp: cstr_def)

lemma filter_str_data: "\<not> P NEWLINE \<Longrightarrow> filter P (str_data ls) = filter P (concat ls)"
  by (induction ls) (simp_all add: str_data_def)

lemma NUL_str_data: "list_all line_ok ls \<Longrightarrow> NUL \<notin> set (str_data ls)"
  by (induction ls) (auto simp: str_data_def line_ok_def NUL_def NEWLINE_def)

lemma filter_respace:
  "\<not> P NEWLINE \<Longrightarrow> \<not> P (CHR '' '') \<Longrightarrow> filter P (respace xs) = filter P xs"
  by (induction xs) (auto simp: respace_def)

lemma NUL_respace: "NUL \<notin> set xs \<Longrightarrow> NUL \<notin> set (respace xs)"
  by (auto simp: respace_def NUL_def)

lemma pretty_done_ex: "\<exists>s lv. pretty_done dump s lv"
  using pretty_result[OF line_init_length, of dump] by (auto simp: pretty_done_def)

lemma pretty_records:
  assumes len: "int (length line0) = LINELEN + 1" and P: "\<not> P (CHR '' '')"
  shows "\<exists>ls. pretty_format_node_dump_from line0 dump = Some ls \<and> list_all line_ok ls
           \<and> filter P (concat ls) = filter P (cstr dump)"
proof -
  from pretty_result[OF len, of dump] obtain s lv where
    r: "pretty_reach dump s lv" and e: "char_at dump (p_i s) = NUL"
    and f: "pretty_format_node_dump_from line0 dump
               = Some (p_str s @ (if p_j s > 0 then [content s] else []))"
    by blast
  note ok = reach_buf_ok[OF r]
  from reach_input[OF r] e have t: "take (nat (p_i s)) dump = cstr dump"
    by (intro take_cstr) simp_all
  have "p_j s = 0 \<Longrightarrow> content s = []" by (simp add: content_def)
  with buf_okD(7)[OF ok]
  have "concat (p_str s @ (if p_j s > 0 then [content s] else [])) = concat (p_str s) @ content s"
    by (cases "p_j s > 0") auto
  with reach_output[where P=P, OF P r] t
  have "filter P (concat (p_str s @ (if p_j s > 0 then [content s] else []))) = filter P (cstr dump)"
    by simp
  moreover from pretty_lines_ok[OF len, of dump] f
  have "list_all line_ok (p_str s @ (if p_j s > 0 then [content s] else []))" by auto
  ultimately show ?thesis using f by blast
qed

lemma pretty_output:
  assumes len: "int (length line0) = LINELEN + 1" and P: "\<not> P (CHR '' '')" "\<not> P NEWLINE"
  shows "\<exists>ls. pretty_format_node_dump_from line0 dump = Some ls \<and> list_all line_ok ls
           \<and> filter P (str_data ls) = filter P (cstr dump)"
  using pretty_records[where P=P, OF len P(1), of dump]
  by (simp add: filter_str_data[where P=P, OF P(2)])

section \<open>The content of the buffer before the first write\<close>

text \<open>What a state of the pretty printer shows of itself: all but the cells of the buffer
  from the fill position on.\<close>

definition view :: "pstate \<Rightarrow> string list \<times> int \<times> int \<times> string" where
  "view s = (p_str s, indentLev s, p_i s, content s)"

lemma view_eqD:
  assumes "buf_ok s" and "buf_ok t" and "view s = view t"
  shows "p_str s = p_str t" "indentLev s = indentLev t" "p_i s = p_i t" "content s = content t"
    "p_j s = p_j t" "indentDist s = indentDist t" "more dump s = more dump t"
proof -
  from assms(3) show v: "p_str s = p_str t" "indentLev s = indentLev t" "p_i s = p_i t"
    "content s = content t"
    by (simp_all add: view_def)
  from length_content[OF assms(1)] length_content[OF assms(2)] v(4) show j: "p_j s = p_j t" by simp
  from buf_ok_dist[OF assms(1)] buf_ok_dist[OF assms(2)] v(2) show "indentDist s = indentDist t"
    by simp
  from j v(3) show "more dump s = more dump t" by (simp add: more_def)
qed

lemma pass_view:
  assumes s: "buf_ok s" and t: "buf_ok t" and v: "view s = view t" and m: "more dump s"
  shows "view (pretty_pass dump s) = view (pretty_pass dump t)"
proof -
  note q = view_eqD[OF s t v]
  from m q(7)[of dump] have m': "more dump t" by simp
  note es = pass_effect[OF s m]
  note et = pass_effect[OF t m']
  have l: "indentLev (pretty_pass dump s) = indentLev (pretty_pass dump t)"
    by (simp only: es(3) et(3) q)
  with buf_ok_dist[OF es(1)] buf_ok_dist[OF et(1)]
  have d: "indentDist (pretty_pass dump s) = indentDist (pretty_pass dump t)" by simp
  have "p_str (pretty_pass dump s) = p_str (pretty_pass dump t)"
    by (simp only: es(2) et(2) q)
  moreover have "p_i (pretty_pass dump s) = p_i (pretty_pass dump t)"
    by (simp only: es(4) et(4) q)
  moreover have "content (pretty_pass dump s) = content (pretty_pass dump t)"
    by (simp only: es(5) et(5) q d)
  ultimately show ?thesis using l by (simp add: view_def)
qed

lemma inner_view:
  "buf_ok s \<Longrightarrow> buf_ok t \<Longrightarrow> view s = view t
     \<Longrightarrow> view (pretty_inner dump s) = view (pretty_inner dump t)"
proof (induction dump s arbitrary: t rule: pretty_inner.induct)
  case (1 dump s)
  note q = view_eqD[OF "1.prems"]
  show ?case
  proof (cases "more dump s")
    case True
    with q(7)[of dump] have m': "more dump t" by simp
    have "view (pretty_inner dump (pretty_pass dump s)) = view (pretty_inner dump (pretty_pass dump t))"
      by (rule "1.IH"[OF True pass_effect(1)[OF "1.prems"(1) True] pass_effect(1)[OF "1.prems"(2) m']
            pass_view[OF "1.prems" True]])
    moreover from True have "pretty_inner dump s = pretty_inner dump (pretty_pass dump s)"
      by (subst pretty_inner.simps) simp
    moreover from m' have "pretty_inner dump t = pretty_inner dump (pretty_pass dump t)"
      by (subst pretty_inner.simps) simp
    ultimately show ?thesis by simp
  next
    case False
    with q(7)[of dump] have m': "\<not> more dump t" by simp
    from False have "pretty_inner dump s = s" by (subst pretty_inner.simps) simp
    moreover from m' have "pretty_inner dump t = t" by (subst pretty_inner.simps) simp
    ultimately show ?thesis using "1.prems"(3) by simp
  qed
qed

lemma outer_view:
  "pretty_reach dump (indent_line s) lv \<Longrightarrow> pretty_reach dump (indent_line t) lv'
     \<Longrightarrow> view (indent_line s) = view (indent_line t)
     \<Longrightarrow> map_option pretty_finish (pretty_outer dump s) = map_option pretty_finish (pretty_outer dump t)"
proof (induction "nat (int (length dump) - p_i s)" arbitrary: s t lv lv' rule: less_induct)
  case less
  define s1 where "s1 = pretty_inner dump (indent_line s)"
  define t1 where "t1 = pretty_inner dump (indent_line t)"
  note oks = reach_buf_ok[OF less.prems(1)] and okt = reach_buf_ok[OF less.prems(2)]
  from inner_reach[OF less.prems(1)] obtain lv1 where
    rs: "pretty_reach dump s1 lv1" and ms: "\<not> more dump s1"
    and ps: "if more dump (indent_line s) then p_i (indent_line s) < p_i s1 else s1 = indent_line s"
    unfolding s1_def by blast
  from inner_reach[OF less.prems(2)] obtain lv1' where
    rt: "pretty_reach dump t1 lv1'" and mt: "\<not> more dump t1"
    unfolding t1_def by blast
  have v1: "view s1 = view t1"
    unfolding s1_def t1_def by (rule inner_view[OF oks okt less.prems(3)])
  note ok1 = reach_buf_ok[OF rs] and ok1' = reach_buf_ok[OF rt]
  note q = view_eqD[OF ok1 ok1' v1]
  have unf: "pretty_outer dump s =
      (if char_at dump (p_i s1) = NUL then Some (set_line (p_j s1) NUL s1)
       else pretty_outer dump (append_line (set_line (p_j s1) NUL s1)))"
    "pretty_outer dump t =
      (if char_at dump (p_i t1) = NUL then Some (set_line (p_j t1) NUL t1)
       else pretty_outer dump (append_line (set_line (p_j t1) NUL t1)))"
    by (subst pretty_outer.simps, simp add: Let_def s1_def t1_def set_line_def)+
  have fin: "pretty_finish (set_line (p_j u) NUL u) = p_str u @ (if p_j u > 0 then [content u] else [])"
    if "buf_ok u" for u
    using cstr_line_end[OF that]
    by (simp add: pretty_finish_def append_line_def) (simp add: set_line_def)
  show ?case
  proof (cases "char_at dump (p_i s1) = NUL")
    case True
    with q unf fin[OF ok1] fin[OF ok1'] show ?thesis by simp
  next
    case False
    have "more dump (indent_line s)"
    proof (rule ccontr)
      assume n: "\<not> more dump (indent_line s)"
      with ps have "s1 = indent_line s" by simp
      with False n buf_okD[OF oks] indent_line_index[of s] show False
        by (simp add: more_def LINELEN_def)
    qed
    with ps indent_line_index(3)[of s] have lt: "p_i s < p_i s1" by simp
    from False have "p_i s1 < int (length dump)" by (simp add: char_at_def split: if_splits)
    with lt have dec: "nat (int (length dump) - p_i (append_line (set_line (p_j s1) NUL s1)))
        < nat (int (length dump) - p_i s)"
      by (simp add: append_line_def set_line_def)
    from False q(3) have False': "char_at dump (p_i t1) \<noteq> NUL" by simp
    from reach_flush[OF rs ms False] reach_flush[OF rt mt False']
    have r2: "pretty_reach dump (indent_line (append_line (set_line (p_j s1) NUL s1))) lv1"
      "pretty_reach dump (indent_line (append_line (set_line (p_j t1) NUL t1))) lv1'"
      by (simp_all add: width_flush_def)
    have "view (width_flush s1) = view (width_flush t1)"
      by (simp add: view_def width_flush_effect[OF ok1] width_flush_effect[OF ok1'] q)
    then have v2: "view (indent_line (append_line (set_line (p_j s1) NUL s1)))
        = view (indent_line (append_line (set_line (p_j t1) NUL t1)))"
      by (simp add: width_flush_def)
    from less.hyps[OF dec r2 v2] unf False False' show ?thesis by simp
  qed
qed

lemma pretty_buffer_independent:
  assumes "int (length line0) = LINELEN + 1"
  shows "pretty_format_node_dump_from line0 dump = pretty_format_node_dump_lines dump"
proof -
  note a = init_effect[OF assms] and b = init_effect[OF line_init_length]
  have "view (indent_line (pretty_init line0)) = view (indent_line (pretty_init line_init))"
    by (simp add: view_def a b)
  from outer_view[OF reach_init[OF assms] reach_init[OF line_init_length] this]
  show ?thesis
    by (simp add: pretty_format_node_dump_from_def pretty_format_node_dump_lines_def)
qed

lemma copy_line_unique:
  assumes len: "int (length line) = LINELEN + 1" "int (length line') = LINELEN + 1"
    and i: "0 \<le> i" "i \<le> int (length dump)"
    and cl: "copy_line dump line i 0 = (line1, i1, j1)" "copy_line dump line' i 0 = (line1', i1', j1')"
  shows "j1' = j1 \<and> i1' = i1"
proof -
  from copy_line_effect[OF cl(1) _ _ len(1) i]
  have a: "0 \<le> j1" "j1 \<le> LINELEN" "i1 = i + j1" "i1 \<le> int (length dump)"
    "NUL \<notin> set (take (nat j1) (drop (nat i) dump))" "j1 < LINELEN \<longrightarrow> char_at dump i1 = NUL"
    by (simp_all add: LINELEN_def)
  from copy_line_effect[OF cl(2) _ _ len(2) i]
  have b: "0 \<le> j1'" "j1' \<le> LINELEN" "i1' = i + j1'" "i1' \<le> int (length dump)"
    "NUL \<notin> set (take (nat j1') (drop (nat i) dump))" "j1' < LINELEN \<longrightarrow> char_at dump i1' = NUL"
    by (simp_all add: LINELEN_def)
  have no: False if "0 \<le> x" "x < y" "i + y \<le> int (length dump)" "char_at dump (i + x) = NUL"
    "NUL \<notin> set (take (nat y) (drop (nat i) dump))" for x y
  proof -
    from that i have "take (nat y) (drop (nat i) dump) ! nat x = dump ! nat (i + x)"
      by (simp add: nat_add_distrib)
    moreover from that i have "dump ! nat (i + x) = NUL" by (simp add: char_at_def split: if_splits)
    moreover from that i have "nat x < length (take (nat y) (drop (nat i) dump))" by simp
    ultimately show False using that(5) by (metis nth_mem)
  qed
  have "\<not> j1 < j1'" using no[of j1 j1'] a b by auto
  moreover have "\<not> j1' < j1" using no[of j1' j1] a b by auto
  ultimately show ?thesis using a(3) b(3) by simp
qed

lemma break_at_unique:
  assumes len: "int (length line) = LINELEN + 1" "int (length line') = LINELEN + 1"
    and i: "0 \<le> i" "i \<le> int (length dump)"
    and cl: "copy_line dump line i 0 = (line1, i1, j1)" "copy_line dump line' i 0 = (line1', i1, j1)"
    and ne: "char_at dump i1 \<noteq> NUL"
    and br: "break_at dump line1 i1 j1 = (i2, j2)" "break_at dump line1' i1 j1 = (i2', j2')"
  shows "j2' = j2 \<and> i2' = i2"
proof -
  note a = wrap_pass_effect[OF len(1) i cl(1) ne br(1)]
  note b = wrap_pass_effect[OF len(2) i cl(2) ne br(2)]
  show ?thesis
  proof (cases "char_at dump i1 = CHR '' ''")
    case True
    with a(10) b(10) show ?thesis by simp
  next
    case False
    with a(10) consider
      (b1) "j2 < LINELEN" "i2 = i + j2 + 1" "char_at dump (i + j2) = CHR '' ''"
        "\<forall>m. j2 < m \<and> m \<le> LINELEN \<longrightarrow> char_at dump (i + m) \<noteq> CHR '' ''"
      | (c1) "j2 = LINELEN" "i2 = i1"
        "\<forall>m. 0 < m \<and> m \<le> LINELEN \<longrightarrow> char_at dump (i + m) \<noteq> CHR '' ''"
      by blast
    then show ?thesis
    proof cases
      case b1
      from False b(10) consider
        (b2) "j2' < LINELEN" "i2' = i + j2' + 1" "char_at dump (i + j2') = CHR '' ''"
          "\<forall>m. j2' < m \<and> m \<le> LINELEN \<longrightarrow> char_at dump (i + m) \<noteq> CHR '' ''"
        | (c2) "\<forall>m. 0 < m \<and> m \<le> LINELEN \<longrightarrow> char_at dump (i + m) \<noteq> CHR '' ''"
        by blast
      then show ?thesis
      proof cases
        case b2
        have "\<not> j2 < j2'" using b1(4)[rule_format, of j2'] b2(1,3) by auto
        moreover have "\<not> j2' < j2" using b2(4)[rule_format, of j2] b1(1,3) by auto
        ultimately show ?thesis using b1(2) b2(2) by simp
      next
        case c2
        from c2[rule_format, of j2] a(6) b1(1,3) show ?thesis by auto
      qed
    next
      case c1
      from False b(10) consider
        (b2) "j2' < LINELEN" "char_at dump (i + j2') = CHR '' ''"
        | (c2) "j2' = LINELEN" "i2' = i1"
        by blast
      then show ?thesis
      proof cases
        case b2
        from c1(3)[rule_format, of j2'] b(6) b2 show ?thesis by auto
      next
        case c2
        with c1 show ?thesis by simp
      qed
    qed
  qed
qed

lemma wrap_loop_independent:
  "int (length line) = LINELEN + 1 \<Longrightarrow> int (length line') = LINELEN + 1
     \<Longrightarrow> 0 \<le> i \<Longrightarrow> i \<le> int (length dump)
     \<Longrightarrow> (case wrap_loop dump line str i of (l, s, j) \<Rightarrow> if j > 0 then s @ [cstr (put l j NUL)] else s)
       = (case wrap_loop dump line' str i of (l, s, j) \<Rightarrow> if j > 0 then s @ [cstr (put l j NUL)] else s)"
proof (induction dump line str i arbitrary: line' rule: wrap_loop.induct)
  case (1 dump line str i)
  note len = "1.prems"(1,2) and i = "1.prems"(3,4)
  obtain line1 i1 j1 where cl: "copy_line dump line i 0 = (line1, i1, j1)"
    by (cases "copy_line dump line i 0")
  obtain line1' i1' j1' where cl0: "copy_line dump line' i 0 = (line1', i1', j1')"
    by (cases "copy_line dump line' i 0")
  from copy_line_unique[OF len i cl cl0] cl0 have cl': "copy_line dump line' i 0 = (line1', i1, j1)"
    by simp
  show ?case
  proof (cases "char_at dump i1 = NUL")
    case True
    from True cl cl' have "wrap_loop dump line str i = (line1, str, j1)"
      "wrap_loop dump line' str i = (line1', str, j1)"
      by (subst wrap_loop.simps, simp)+
    with final_line(1)[OF len(1) i cl] final_line(1)[OF len(2) i cl'] show ?thesis by simp
  next
    case False
    obtain i2 j2 where br: "break_at dump line1 i1 j1 = (i2, j2)"
      by (cases "break_at dump line1 i1 j1")
    obtain i2' j2' where br0: "break_at dump line1' i1 j1 = (i2', j2')"
      by (cases "break_at dump line1' i1 j1")
    from break_at_unique[OF len i cl cl' False br br0] br0
    have br': "break_at dump line1' i1 j1 = (i2, j2)" by simp
    note a = wrap_pass_effect[OF len(1) i cl False br]
    note b = wrap_pass_effect[OF len(2) i cl' False br']
    from wrap_pass_progress[OF cl False br] i have i2: "0 \<le> i2" by simp
    from cl False br have e: "wrap_loop dump line str i
        = wrap_loop dump (put line1 j2 NUL) (str @ [cstr (put line1 j2 NUL)]) i2"
      by (subst wrap_loop.simps) simp
    from cl' False br' have e': "wrap_loop dump line' str i
        = wrap_loop dump (put line1' j2 NUL) (str @ [cstr (put line1' j2 NUL)]) i2"
      by (subst wrap_loop.simps) simp
    from "1.IH"[OF cl[symmetric] refl False br[symmetric] a(1) b(1) i2 a(8)]
    show ?thesis by (simp add: e e' a(2) b(2))
  qed
qed

lemma format_buffer_independent:
  assumes "int (length line0) = LINELEN + 1"
  shows "format_node_dump_from line0 dump = format_node_dump_lines dump"
  using wrap_loop_independent[OF assms line_init_length, of 0 dump "[]"]
  by (simp add: format_node_dump_from_def format_node_dump_lines_def)

section \<open>The lines of the returned text\<close>

text \<open>The lines of a text, each up to its newline; \<open>cur\<close> is the line being read.\<close>

fun text_lines :: "string \<Rightarrow> string \<Rightarrow> string list" where
  "text_lines cur [] = (if cur = [] then [] else [cur])"
| "text_lines cur (c # cs) =
     (if c = NEWLINE then cur # text_lines [] cs else text_lines (cur @ [c]) cs)"

lemma text_lines_record:
  "NEWLINE \<notin> set l \<Longrightarrow> text_lines cur (l @ NEWLINE # rest) = (cur @ l) # text_lines [] rest"
  by (induction l arbitrary: cur) auto

lemma text_lines_str_data:
  "list_all (\<lambda>l. NEWLINE \<notin> set l) ls \<Longrightarrow> text_lines [] (str_data ls) = ls"
proof (induction ls)
  case Nil
  show ?case by (simp add: str_data_def)
next
  case (Cons l ls)
  then have "text_lines [] (l @ NEWLINE # str_data ls) = l # ls"
    by (simp add: text_lines_record)
  then show ?case by (simp add: str_data_def)
qed

section \<open>Records and the input of format_node_dump\<close>

text \<open>What follows a record in the input: nothing, or the one space that the line break
  behind the record consumed.\<close>

definition sep_ok :: "string \<Rightarrow> bool" where
  "sep_ok s \<longleftrightarrow> s = [] \<or> s = '' ''"

lemma map2_append_snoc:
  "length xs = length ys \<Longrightarrow>
     concat (map2 (@) (xs @ [x]) (ys @ [y])) = concat (map2 (@) xs ys) @ x @ y"
  by simp

lemma take_stay:
  assumes "0 \<le> i" and "0 \<le> j" and "i + j \<le> int (length dump)"
  shows "take (nat (i + j)) dump = take (nat i) dump @ take (nat j) (drop (nat i) dump)"
proof -
  from assms have "nat (i + j) = nat i + nat j" by linarith
  then show ?thesis by (simp add: take_add)
qed

lemma wrap_reach_seps:
  "wrap_reach dump line str i \<Longrightarrow>
     \<exists>seps. length seps = length str \<and> list_all sep_ok seps
        \<and> concat (map2 (@) str seps) = take (nat i) dump"
proof (induction rule: wrap_reach.induct)
  case (wrap_init line0)
  show ?case by simp
next
  case (wrap_next line str i line1 i1 j1 i2 j2)
  from wrap_reach_ok[OF wrap_next.hyps(1)]
  have pre: "int (length line) = LINELEN + 1" "0 \<le> i" "i \<le> int (length dump)" by simp_all
  note e = wrap_pass_effect[OF pre wrap_next.hyps(2,3,4)]
  from wrap_next.IH obtain seps where
    s: "length seps = length str" "list_all sep_ok seps"
      "concat (map2 (@) str seps) = take (nat i) dump"
    by blast
  from e(6) have j0: "0 \<le> j2" by simp
  have "\<exists>sep. sep_ok sep \<and> take (nat i2) dump
      = take (nat i) dump @ take (nat j2) (drop (nat i) dump) @ sep"
  proof (cases "i2 = i + j2 + 1 \<and> char_at dump (i + j2) = CHR '' ''")
    case True
    from e(3,4,7) have lt: "i + j2 < int (length dump)" by simp
    from take_step[OF pre(2) j0 lt] True
    have "take (nat i2) dump = take (nat i) dump @ take (nat j2) (drop (nat i) dump) @ '' ''"
      by simp
    then show ?thesis by (auto simp: sep_ok_def)
  next
    case False
    with e(10) e(3) have c: "i2 = i + j2" "j2 = LINELEN" by auto
    from c e(3,4) have "i + j2 \<le> int (length dump)" by simp
    from take_stay[OF pre(2) j0 this] c(1)
    have "take (nat i2) dump = take (nat i) dump @ take (nat j2) (drop (nat i) dump) @ []"
      by simp
    then show ?thesis by (auto simp: sep_ok_def)
  qed
  then obtain sep where sep: "sep_ok sep"
    "take (nat i2) dump = take (nat i) dump @ take (nat j2) (drop (nat i) dump) @ sep"
    by blast
  have "concat (map2 (@) (str @ [cstr (put line1 j2 NUL)]) (seps @ [sep])) = take (nat i2) dump"
    using s(1,3) sep(2) by (simp add: e(2))
  moreover have "length (seps @ [sep]) = length (str @ [cstr (put line1 j2 NUL)])"
    using s(1) by simp
  moreover have "list_all sep_ok (seps @ [sep])" using s(2) sep(1) by simp
  ultimately show ?case by blast
qed

lemma format_seps:
  assumes nn: "NUL \<notin> set dump" and len: "int (length line0) = LINELEN + 1"
  shows "\<exists>seps. length seps = length (format_node_dump_from line0 dump) \<and> list_all sep_ok seps
           \<and> concat (map2 (@) (format_node_dump_from line0 dump) seps) = dump"
proof -
  from format_result[OF len, of dump] obtain line str i line1 i1 j1 where
    r: "wrap_reach dump line str i" and cl: "copy_line dump line i 0 = (line1, i1, j1)"
    and e: "char_at dump i1 = NUL"
    and f: "format_node_dump_from line0 dump
                = str @ (if j1 > 0 then [take (nat j1) (drop (nat i) dump)] else [])"
    by blast
  from wrap_reach_ok[OF r] have pre: "int (length line) = LINELEN + 1" "0 \<le> i" "i \<le> int (length dump)"
    by simp_all
  note fl = final_line[OF pre cl]
  from copy_line_effect[OF cl _ _ pre] have "i1 \<le> int (length dump)" by (simp add: LINELEN_def)
  with char_at_NUL_end[OF nn, of i1] e fl(2,5) pre have i1: "i + j1 = int (length dump)" by simp
  then have rest: "take (nat j1) (drop (nat i) dump) = drop (nat i) dump"
    using pre fl(2) by simp
  from wrap_reach_seps[OF r] obtain seps where
    s: "length seps = length str" "list_all sep_ok seps"
      "concat (map2 (@) str seps) = take (nat i) dump"
    by blast
  show ?thesis
  proof (cases "j1 > 0")
    case True
    have "concat (map2 (@) (str @ [drop (nat i) dump]) (seps @ [[]])) = dump"
      using s(1,3) by simp
    moreover have "length (seps @ [[]]) = length (str @ [drop (nat i) dump])" using s(1) by simp
    moreover have "list_all sep_ok (seps @ [[]])" using s(2) by (simp add: sep_ok_def)
    ultimately show ?thesis using True unfolding f rest by (intro exI[of _ "seps @ [[]]"]) simp
  next
    case False
    with fl(2) i1 pre have "take (nat i) dump = dump" by simp
    with s False show ?thesis by (auto simp: f)
  qed
qed

lemma filter_seps:
  "length ls = length seps \<Longrightarrow> list_all sep_ok seps \<Longrightarrow> \<not> P (CHR '' '')
     \<Longrightarrow> filter P (concat (map2 (@) ls seps)) = filter P (concat ls)"
  by (induction ls seps rule: list_induct2) (auto simp: sep_ok_def)

lemma length_seps:
  "length ls = length seps \<Longrightarrow> list_all sep_ok seps
     \<Longrightarrow> length (concat (map2 (@) ls seps)) \<le> length (concat ls) + length ls
       \<and> length (concat ls) \<le> length (concat (map2 (@) ls seps))"
  by (induction ls seps rule: list_induct2) (auto simp: sep_ok_def)

lemma length_str_data: "length (str_data ls) = length (concat ls) + length ls"
  by (induction ls) (simp_all add: str_data_def)

lemma concat_words: "concat (split_acc sep cur xs) = cur @ filter (\<lambda>c. \<not> sep c) xs"
  by (induction xs arbitrary: cur) auto

lemma rewind_eval:
  "format_node_dump_lines (replicate 74 (CHR ''a'') @ '' bcdef'')
     = [replicate 74 (CHR ''a''), ''bcdef'']"
  "words (replicate 74 (CHR ''a'') @ '' bcdef'')
     = [replicate 74 (CHR ''a''), ''bcdef'']"
  by code_simp+

section \<open>The size of the returned text\<close>

text \<open>The error of \<^verbatim>\<open>appendStringInfo\<close>: the string buffer cannot be enlarged.\<close>

datatype error = Cannot_Enlarge

text \<open>\<^verbatim>\<open>MaxAllocSize\<close> of \<^verbatim>\<open>utils/memutils.h\<close>, a file that is not among the sources
  here: no palloc'd chunk has more bytes, so neither a \<^verbatim>\<open>StringInfo\<close> nor the input
  string has. It is the bound that the model of the C integers relies on.\<close>

definition MaxAllocSize :: nat where
  "MaxAllocSize = 0x3fffffff"

text \<open>\<^verbatim>\<open>appendStringInfo(&str, "%s\n", line)\<close> with its error. The code of
  \<^verbatim>\<open>appendStringInfo\<close> is not among the sources here; the bound of the buffer is the
  parameter \<open>cap\<close>: the text of the buffer stays shorter than \<open>cap\<close>, and a call that would
  make it as long as that raises the error and appends nothing.\<close>

definition append_checked :: "nat \<Rightarrow> string list \<Rightarrow> string \<Rightarrow> error + string list" where
  "append_checked cap str line =
     (if length (str_data (str @ [line])) < cap then Inr (str @ [line]) else Inl Cannot_Enlarge)"

text \<open>The calls of \<^verbatim>\<open>appendStringInfo\<close> of a run, in their order: the first error ends
  the run.\<close>

fun appends_checked :: "nat \<Rightarrow> string list \<Rightarrow> string list \<Rightarrow> error + string list" where
  "appends_checked cap str [] = Inr str"
| "appends_checked cap str (l # ls) =
     (case append_checked cap str l of
        Inl e \<Rightarrow> Inl e
      | Inr str' \<Rightarrow> appends_checked cap str' ls)"

text \<open>\<^verbatim>\<open>return str.data\<close> after the appends of the records \<open>ls\<close>, or their error.\<close>

definition return_data :: "nat \<Rightarrow> string list \<Rightarrow> error + string" where
  "return_data cap ls =
     (case appends_checked cap [] ls of
        Inl e \<Rightarrow> Inl e
      | Inr str \<Rightarrow> Inr (str_data str))"

text \<open>The two functions with the error of the output buffer: the records that the loops
  append, appended with \<open>append_checked\<close>.\<close>

definition format_node_dump_checked :: "nat \<Rightarrow> string \<Rightarrow> error + string" where
  "format_node_dump_checked cap dump = return_data cap (format_node_dump_lines dump)"

definition pretty_format_node_dump_checked :: "nat \<Rightarrow> string \<Rightarrow> (error + string) option" where
  "pretty_format_node_dump_checked cap dump =
     map_option (return_data cap) (pretty_format_node_dump_lines dump)"

text \<open>The buffer only grows: the appends of a run raise the error exactly when the whole
  text does not fit.\<close>

lemma str_data_grows: "length (str_data (str @ [l])) \<le> length (str_data (str @ l # ls))"
  by (simp add: str_data_def)

lemma appends_fit:
  "appends_checked cap str ls =
     (if ls = [] \<or> length (str_data (str @ ls)) < cap then Inr (str @ ls) else Inl Cannot_Enlarge)"
proof (induction ls arbitrary: str)
  case Nil
  show ?case by simp
next
  case (Cons l ls)
  have g: "length (str_data (str @ [l])) \<le> length (str_data (str @ l # ls))"
    by (rule str_data_grows)
  show ?case
  proof (cases "length (str_data (str @ [l])) < cap")
    case True
    then have "appends_checked cap str (l # ls) = appends_checked cap (str @ [l]) ls"
      by (simp add: append_checked_def)
    also have "\<dots> = (if ls = [] \<or> length (str_data ((str @ [l]) @ ls)) < cap
                       then Inr ((str @ [l]) @ ls) else Inl Cannot_Enlarge)"
      by (rule Cons.IH)
    finally show ?thesis using True by auto
  next
    case False
    with g have "\<not> length (str_data (str @ l # ls)) < cap" by linarith
    with False show ?thesis by (simp add: append_checked_def)
  qed
qed

lemma return_data_fit:
  "return_data cap ls =
     (if ls = [] \<or> length (str_data ls) < cap then Inr (str_data ls) else Inl Cannot_Enlarge)"
  by (simp add: return_data_def appends_fit)

lemma length_concat_le:
  "list_all (\<lambda>l. int (length l) \<le> LINELEN) ls \<Longrightarrow> length (concat ls) \<le> 78 * length ls"
  by (induction ls) (auto simp: LINELEN_def)

lemma length_concat_ge: "list_all (\<lambda>l. l \<noteq> []) ls \<Longrightarrow> length ls \<le> length (concat ls)"
proof (induction ls)
  case Nil
  show ?case by simp
next
  case (Cons l ls)
  then have "length ls \<le> length (concat ls)" and "l \<noteq> []" by simp_all
  then show ?case by (cases l) simp_all
qed

lemma concat_seps_solid:
  "length ls = length seps \<Longrightarrow> list_all sep_ok seps
     \<Longrightarrow> CHR '' '' \<notin> set (concat (map2 (@) ls seps))
     \<Longrightarrow> concat (map2 (@) ls seps) = concat ls"
  by (induction ls seps rule: list_induct2) (auto simp: sep_ok_def)

lemma format_length:
  assumes nn: "NUL \<notin> set dump" and len: "int (length line0) = LINELEN + 1"
  shows "length dump \<le> length (str_data (format_node_dump_from line0 dump))"
    and "length (str_data (format_node_dump_from line0 dump)) \<le> 2 * length dump"
proof -
  define ls where "ls = format_node_dump_from line0 dump"
  from format_seps[OF nn len] obtain seps where
    s: "length seps = length ls" "list_all sep_ok seps" "concat (map2 (@) ls seps) = dump"
    unfolding ls_def by blast
  from length_seps[OF s(1)[symmetric] s(2)] s(3)
  have b: "length dump \<le> length (concat ls) + length ls" "length (concat ls) \<le> length dump"
    by simp_all
  from format_lines_ok[OF len, of dump] have "list_all (\<lambda>l. l \<noteq> []) ls"
    unfolding ls_def by (rule list_all_mono) (simp add: line_ok_def)
  from length_concat_ge[OF this] b
  show "length dump \<le> length (str_data (format_node_dump_from line0 dump))"
    and "length (str_data (format_node_dump_from line0 dump)) \<le> 2 * length dump"
    by (simp_all add: length_str_data ls_def[symmetric])
qed

lemma solid_length:
  assumes c: "c \<noteq> NUL" "c \<noteq> CHR '' ''" and len: "int (length line0) = LINELEN + 1"
  shows "n + n div 78 \<le> length (str_data (format_node_dump_from line0 (replicate n c)))"
proof -
  define ls where "ls = format_node_dump_from line0 (replicate n c)"
  from c(1) have nn: "NUL \<notin> set (replicate n c)" by auto
  from format_seps[OF nn len] obtain seps where
    s: "length seps = length ls" "list_all sep_ok seps" "concat (map2 (@) ls seps) = replicate n c"
    unfolding ls_def by blast
  from c(2) have "CHR '' '' \<notin> set (concat (map2 (@) ls seps))" by (auto simp: s(3))
  from concat_seps_solid[OF s(1)[symmetric] s(2) this]
  have "concat ls = replicate n c" by (simp only: s(3))
  then have cl: "length (concat ls) = n" by simp
  from format_lines_ok[OF len, of "replicate n c"] have "list_all (\<lambda>l. int (length l) \<le> LINELEN) ls"
    unfolding ls_def by (rule list_all_mono) (simp add: line_ok_def)
  from length_concat_le[OF this] cl have "n \<le> 78 * length ls" by simp
  then have "n div 78 \<le> length ls" by (simp add: div_le_mono2 less_eq_div_iff_mult_less_eq)
  with cl show ?thesis by (simp add: length_str_data ls_def[symmetric])
qed

lemma reach_records:
  "pretty_reach dump s lv \<Longrightarrow>
     int (length (p_str s)) + (if LINELEN \<le> p_j s then 1 else 0) \<le> 3 * p_i s"
proof (induction rule: pretty_reach.induct)
  case (reach_init line0)
  then show ?case by (simp add: init_effect LINELEN_def)
next
  case (reach_pass s lv)
  note ok = reach_buf_ok[OF reach_pass.hyps(1)]
  note m = reach_pass.hyps(2)
  from m have lt: "\<not> LINELEN \<le> p_j s" by (simp add: more_def)
  from pass_effect(2)[OF ok m]
  have "length (p_str (pretty_pass dump s)) \<le> length (p_str s) + 2"
    by (auto split: if_splits)
  with pretty_pass_progress[of s dump] reach_pass.IH lt show ?case
    by (auto split: if_splits)
next
  case (reach_flush s lv)
  note ok = reach_buf_ok[OF reach_flush.hyps(1)]
  from reach_flush.hyps(2,3) have ge: "LINELEN \<le> p_j s" by (simp add: more_def)
  note w = width_flush_effect[OF ok]
  from buf_okD(4)[OF w(1)] length_content[OF w(1)] w(5) buf_okD(3,4)[OF ok]
  have "\<not> LINELEN \<le> p_j (width_flush s)" by (simp add: spaces_def LINELEN_def)
  with reach_flush.IH ge w(2,4) show ?case by simp
qed

lemma pretty_length:
  assumes len: "int (length line0) = LINELEN + 1"
  shows "\<exists>ls. pretty_format_node_dump_from line0 dump = Some ls
           \<and> length (str_data ls) \<le> 79 * (3 * length dump + 1)"
proof -
  from pretty_result[OF len, of dump] obtain s lv where
    r: "pretty_reach dump s lv"
    and f: "pretty_format_node_dump_from line0 dump
               = Some (p_str s @ (if p_j s > 0 then [content s] else []))"
    by blast
  define ls where "ls = p_str s @ (if p_j s > 0 then [content s] else [])"
  from reach_records[OF r] reach_input[OF r] have "int (length (p_str s)) \<le> 3 * int (length dump)"
    by (auto split: if_splits)
  then have n: "length ls \<le> 3 * length dump + 1" by (auto simp: ls_def)
  from pretty_lines_ok[OF len, of dump] f have "list_all line_ok ls" by (simp add: ls_def)
  then have "list_all (\<lambda>l. int (length l) \<le> LINELEN) ls"
    by (rule list_all_mono) (simp add: line_ok_def)
  from length_concat_le[OF this] have "length (str_data ls) \<le> 79 * length ls"
    by (simp add: length_str_data)
  also from n have "\<dots> \<le> 79 * (3 * length dump + 1)" by simp
  finally show ?thesis using f by (simp add: ls_def)
qed

text \<open>The pretty printer on 21 \<^verbatim>\<open>{\<close> and \<open>n\<close> \<^verbatim>\<open>:\<close>: from level 20 on the
  indentation is 60 columns, and every \<^verbatim>\<open>:\<close> appends the record of the marker before
  it, 61 characters and a newline.\<close>

lemma colons_char:
  "0 \<le> i \<Longrightarrow> char_at (replicate 21 (CHR ''{'') @ replicate n (CHR '':'')) i
     = (if i < 21 then CHR ''{'' else if i < 21 + int n then CHR '':'' else NUL)"
  by (auto simp: char_at_def nth_append)

lemma colons_reach:
  fixes n :: nat
  defines "D \<equiv> replicate 21 (CHR ''{'') @ replicate n (CHR '':'')"
  assumes r: "pretty_reach D s lv"
  shows "indentLev s = min (p_i s) 21
       \<and> p_j s = (if p_i s = 0 then 0 else indentDist s + 1)
       \<and> 62 * (p_i s - 22) \<le> int (length (str_data (p_str s)))"
  using r
proof (induction rule: pretty_reach.induct)
  case (reach_init line0)
  then show ?case by (simp add: init_effect)
next
  case (reach_pass s lv)
  note ok = reach_buf_ok[OF reach_pass.hyps(1)]
  note m = reach_pass.hyps(2)
  note d = buf_okD[OF ok]
  from reach_input[OF reach_pass.hyps(1)] have i0: "0 \<le> p_i s" by simp
  from m have cn: "char_at D (p_i s) \<noteq> NUL" by (simp add: more_def)
  with colons_char[OF i0, of n] have lt: "p_i s < 21 + int n" by (auto simp: D_def split: if_splits)
  have c: "char_at D (p_i s) = (if p_i s < 21 then CHR ''{'' else CHR '':'')"
    using colons_char[OF i0, of n] lt by (simp add: D_def)
  have c1: "char_at D (p_i s + 1) \<noteq> CHR '')''"
    using colons_char[of "p_i s + 1" n] i0 by (simp add: D_def NUL_def)
  note e = pass_effect[OF ok m]
  note ok' = e(1)
  from ok have dist: "indentDist s = min (indentLev s * 3) 60"
    by (simp add: buf_ok_def INDENTSTOP_def MAXINDENT_def)
  from ok' have dist': "indentDist (pretty_pass D s) = min (indentLev (pretty_pass D s) * 3) 60"
    by (simp add: buf_ok_def INDENTSTOP_def MAXINDENT_def)
  from e(4) c have pi: "p_i (pretty_pass D s) = p_i s + 1" by (simp split: if_splits)
  from e(3) c reach_pass.IH have lev: "indentLev (pretty_pass D s) = min (p_i s + 1) 21"
    by (auto split: if_splits)
  from e(5) c have "content (pretty_pass D s)
      = spaces (indentDist (pretty_pass D s)) @ [char_at D (p_i s)]"
    by (simp split: if_splits)
  then have "int (length (content (pretty_pass D s))) = indentDist (pretty_pass D s) + 1"
    using buf_okD(3)[OF ok'] by (simp add: spaces_def)
  with length_content[OF ok'] have pj: "p_j (pretty_pass D s) = indentDist (pretty_pass D s) + 1"
    by simp
  from e(2) c have st: "p_str (pretty_pass D s)
      = p_str s @ (if p_j s \<noteq> indentDist s then [content s] else [])"
    by (simp split: if_splits)
  have "62 * (p_i s + 1 - 22) \<le> int (length (str_data (p_str (pretty_pass D s))))"
  proof (cases "p_i s < 22")
    case True
    then show ?thesis by simp
  next
    case False
    with reach_pass.IH have l: "indentLev s = 21" and j: "p_j s = indentDist s + 1" by auto
    from l dist have "indentDist s = 60" by simp
    with j length_content[OF ok] have "length (content s) = 61" by simp
    with st j reach_pass.IH show ?thesis by (simp add: length_str_data)
  qed
  with pi lev pj i0 show ?case by simp
next
  case (reach_flush s lv)
  note ok = reach_buf_ok[OF reach_flush.hyps(1)]
  from reach_flush.hyps(2,3) have "LINELEN \<le> p_j s" by (simp add: more_def)
  with reach_flush.IH buf_okD(4)[OF ok] have False by (auto simp: LINELEN_def split: if_splits)
  then show ?case ..
qed

lemma colons_length:
  fixes n :: nat
  assumes len: "int (length line0) = LINELEN + 1"
  shows "\<exists>ls. pretty_format_node_dump_from line0 (replicate 21 (CHR ''{'') @ replicate n (CHR '':'')) = Some ls
           \<and> 62 * (n - 1) \<le> length (str_data ls)"
proof -
  define D where "D = replicate 21 (CHR ''{'') @ replicate n (CHR '':'')"
  from pretty_result[OF len, of D] obtain s lv where
    r: "pretty_reach D s lv" and e: "char_at D (p_i s) = NUL"
    and f: "pretty_format_node_dump_from line0 D
               = Some (p_str s @ (if p_j s > 0 then [content s] else []))"
    by blast
  from reach_input[OF r] have i0: "0 \<le> p_i s" by simp
  have "\<not> p_i s < 21 + int n"
  proof
    assume "p_i s < 21 + int n"
    with colons_char[OF i0, of n, folded D_def]
    have "char_at D (p_i s) = CHR ''{'' \<or> char_at D (p_i s) = CHR '':''"
      by (cases "p_i s < 21") simp_all
    then show False unfolding e by (simp add: NUL_def)
  qed
  then have "21 + int n \<le> p_i s" by simp
  with colons_reach[OF r[unfolded D_def]] have "62 * (int n - 1) \<le> int (length (str_data (p_str s)))"
    by simp
  then have "int (62 * (n - 1)) \<le> int (length (str_data (p_str s)))"
    by (cases n) simp_all
  then have "62 * (n - 1) \<le> length (str_data (p_str s))" by (simp only: of_nat_le_iff)
  also have "\<dots> \<le> length (str_data (p_str s @ (if p_j s > 0 then [content s] else [])))"
    by (simp add: length_str_data)
  finally have "62 * (n - 1) \<le> length (str_data (p_str s @ (if p_j s > 0 then [content s] else [])))" .
  with f show ?thesis unfolding D_def by blast
qed

lemma newlines_eval:
  "pretty_format_node_dump_lines [CHR ''a'', NEWLINE, NEWLINE, CHR ''b'']
     = Some [[CHR ''a'', NEWLINE, NEWLINE, CHR ''b'']]"
  by code_simp

section \<open>Properties of the two formatters\<close>

text \<open>
  C1, as the code has it. On \<^verbatim>\<open>{A :B 1 {C :D 2}}\<close> the pretty printer appends six
  records: three spaces of indentation for each level, every \<^verbatim>\<open>:\<close>, \<^verbatim>\<open>{\<close> and
  \<^verbatim>\<open>}\<close> at the start of a record. The character after \<^verbatim>\<open>{\<close> follows it
  directly (\<^verbatim>\<open>{A\<close>, not \<^verbatim>\<open>{ A\<close>), and the space read before a break stays at
  the end of its record. By \<open>pretty_buffer_independent\<close> the records are the same from
  any content of the uninitialised buffer.
\<close>

theorem scenario_c_lines:
  "pretty_format_node_dump_lines ''{A :B 1 {C :D 2}}'' =
     Some [''   {A '', ''   :B 1 '', ''      {C '', ''      :D 2'', ''      }'', ''   }'']
   \<and> pretty_format_node_dump ''{A :B 1 {C :D 2}}'' =
     Some (''   {A '' @ [NEWLINE] @ ''   :B 1 '' @ [NEWLINE] @ ''      {C '' @ [NEWLINE]
           @ ''      :D 2'' @ [NEWLINE] @ ''      }'' @ [NEWLINE] @ ''   }'' @ [NEWLINE])"
  by (simp add: pretty_format_node_dump_def scenario_c_eval str_data_def)

text \<open>
  C1, as the specification states it, fails: the six lines of its Scenario C are not the
  output, even when the spaces at the end of every record are left out.
\<close>

theorem scenario_c_counterexample:
  "\<not> (\<exists>ls. pretty_format_node_dump_lines ''{A :B 1 {C :D 2}}'' = Some ls
         \<and> map strip_trailing ls =
             [''   { A'', ''   :B 1'', ''      { C'', ''      :D 2'', ''      }'', ''   }''])"
  by (simp add: scenario_c_eval strip_trailing_def)

text \<open>
  C2. Whatever the uninitialised buffer holds, every record that \<^verbatim>\<open>format_node_dump\<close>
  appends and every record that \<^verbatim>\<open>pretty_format_node_dump\<close> appends has at most
  \<open>LINELEN\<close> = 78 characters; a record is what one \<^verbatim>\<open>"%s\n"\<close> prints before its
  newline. At every test of the inner loop of the pretty printer the buffer holds \<open>j\<close>
  characters and \<open>j\<close> is at most 78; when the loop stops with input left, \<open>j\<close> is 78
  and the buffer is flushed as it is, whatever its characters are.
\<close>

theorem line_width_bound:
  "int (length line0) = LINELEN + 1 \<Longrightarrow>
     list_all (\<lambda>l. int (length l) \<le> LINELEN) (format_node_dump_from line0 dump)
     \<and> (\<exists>ls. pretty_format_node_dump_from line0 dump = Some ls
            \<and> list_all (\<lambda>l. int (length l) \<le> LINELEN) ls)
     \<and> (\<forall>s lv. pretty_reach dump s lv \<longrightarrow>
            int (length (content s)) = p_j s \<and> p_j s \<le> LINELEN
            \<and> (\<not> more dump s \<and> char_at dump (p_i s) \<noteq> NUL \<longrightarrow>
                 p_j s = LINELEN \<and> p_str (width_flush s) = p_str s @ [content s]))"
proof (intro conjI allI impI)
  assume len: "int (length line0) = LINELEN + 1"
  show "list_all (\<lambda>l. int (length l) \<le> LINELEN) (format_node_dump_from line0 dump)"
    by (rule list_all_mono[OF format_lines_ok[OF len]]) (simp add: line_ok_def)
  from pretty_lines_ok[OF len, of dump] obtain ls where
    "pretty_format_node_dump_from line0 dump = Some ls" and "list_all line_ok ls"
    by blast
  then show "\<exists>ls. pretty_format_node_dump_from line0 dump = Some ls
            \<and> list_all (\<lambda>l. int (length l) \<le> LINELEN) ls"
    using list_all_mono[of line_ok ls "\<lambda>l. int (length l) \<le> LINELEN"]
    by (auto simp: line_ok_def)
next
  fix s lv assume r: "pretty_reach dump s lv"
  note ok = reach_buf_ok[OF r]
  show "int (length (content s)) = p_j s" by (rule length_content[OF ok])
  show "p_j s \<le> LINELEN" using buf_okD[OF ok] by (simp add: LINELEN_def)
  assume w: "\<not> more dump s \<and> char_at dump (p_i s) \<noteq> NUL"
  with buf_okD[OF ok] show "p_j s = LINELEN" by (auto simp: more_def LINELEN_def)
  show "p_str (width_flush s) = p_str s @ [content s]" by (rule width_flush_effect[OF ok])
qed

theorem line_width_bound_witness:
  "int (length line_init) = LINELEN + 1
   \<and> pretty_reach ''{a b}'' (indent_line (pretty_init line_init)) []
   \<and> list_all (\<lambda>l. int (length l) \<le> LINELEN) (format_node_dump_from line_init ''{a b}'')
   \<and> (\<exists>ls. pretty_format_node_dump_from line_init ''{a b}'' = Some ls
          \<and> list_all (\<lambda>l. int (length l) \<le> LINELEN) ls)
   \<and> p_j (indent_line (pretty_init line_init)) \<le> LINELEN"
proof -
  note h = line_init_length
  have r: "pretty_reach ''{a b}'' (indent_line (pretty_init line_init)) []"
    by (rule reach_init[OF h])
  from line_width_bound[OF h, of "''{a b}''"] r h show ?thesis by blast
qed

text \<open>
  C3. At every test of the inner loop of \<^verbatim>\<open>pretty_format_node_dump\<close>, on every input,
  \<open>indentLev\<close> is not negative and \<open>indentDist\<close> is \<open>min (indentLev * 3) 60\<close>. A
  \<^verbatim>\<open>}\<close> read at level 0 still appends its record \<^verbatim>\<open>}\<close> (after the pending
  buffer, if any), and level, distance and fill position stay 0.
\<close>

theorem indent_invariant:
  "pretty_reach dump s lv \<Longrightarrow>
     0 \<le> indentLev s \<and> indentDist s = min (indentLev s * INDENTSTOP) MAXINDENT
     \<and> (more dump s \<and> char_at dump (p_i s) = CHR ''}'' \<and> indentLev s = 0 \<longrightarrow>
          p_str (pretty_pass dump s) = p_str s @ (if p_j s \<noteq> 0 then [content s] else []) @ [''}'']
          \<and> indentLev (pretty_pass dump s) = 0 \<and> indentDist (pretty_pass dump s) = 0
          \<and> p_j (pretty_pass dump s) = 0)"
proof (intro conjI impI)
  assume r: "pretty_reach dump s lv"
  note ok = reach_buf_ok[OF r]
  from ok show "0 \<le> indentLev s" "indentDist s = min (indentLev s * INDENTSTOP) MAXINDENT"
    by (simp_all add: buf_ok_def)
  assume a: "more dump s \<and> char_at dump (p_i s) = CHR ''}'' \<and> indentLev s = 0"
  then have m: "more dump s" and c: "char_at dump (p_i s) = CHR ''}''" and l: "indentLev s = 0"
    by simp_all
  from l buf_ok_dist[OF ok] have d: "indentDist s = 0" by simp
  note e = pass_effect[OF ok m]
  from e(2) c d show "p_str (pretty_pass dump s) = p_str s @ (if p_j s \<noteq> 0 then [content s] else []) @ [''}'']"
    by (simp add: spaces_def)
  from e(3) c l show l': "indentLev (pretty_pass dump s) = 0" by simp
  with buf_ok_dist[OF e(1)] show d': "indentDist (pretty_pass dump s) = 0" by simp
  from e(5) c d' length_content[OF e(1)] show "p_j (pretty_pass dump s) = 0"
    by (simp add: spaces_def)
qed

theorem indent_invariant_witness:
  "pretty_reach ''}'' (indent_line (pretty_init line_init)) []
   \<and> more ''}'' (indent_line (pretty_init line_init))
   \<and> char_at ''}'' (p_i (indent_line (pretty_init line_init))) = CHR ''}''
   \<and> indentLev (indent_line (pretty_init line_init)) = 0
   \<and> indentDist (indent_line (pretty_init line_init)) = 0
   \<and> p_str (pretty_pass ''}'' (indent_line (pretty_init line_init))) = [''}'']
   \<and> indentLev (pretty_pass ''}'' (indent_line (pretty_init line_init))) = 0
   \<and> indentDist (pretty_pass ''}'' (indent_line (pretty_init line_init))) = 0"
proof -
  note i = init_effect[OF line_init_length]
  have r: "pretty_reach ''}'' (indent_line (pretty_init line_init)) []"
    by (rule reach_init[OF line_init_length])
  have m: "more ''}'' (indent_line (pretty_init line_init))"
    and c: "char_at ''}'' (p_i (indent_line (pretty_init line_init))) = CHR ''}''"
    by (simp_all add: more_def i char_at_def LINELEN_def NUL_def)
  from indent_invariant[OF r] r m c i show ?thesis by (simp add: MAXINDENT_def)
qed

text \<open>
  C4, as the code has it. On every input, the records of \<^verbatim>\<open>format_node_dump\<close>, each
  followed by nothing or by the one space that its line break consumed, make up the input
  again; so the characters of the tokens are kept, in their order. On an input without a
  pass that splits a token (in particular on every input without 78 consecutive non-space
  characters), splitting the returned text and the input at white space gives the same
  tokens: the text is then the input with some of its spaces replaced by newlines,
  followed by one more newline unless the input is empty or the last line break consumed
  its last character.
\<close>

theorem token_preservation:
  "NUL \<notin> set dump \<Longrightarrow> int (length line0) = LINELEN + 1 \<Longrightarrow>
     (\<exists>seps. length seps = length (format_node_dump_from line0 dump)
         \<and> list_all (\<lambda>s. s = [] \<or> s = '' '') seps
         \<and> concat (map2 (@) (format_node_dump_from line0 dump) seps) = dump)
     \<and> concat (words (str_data (format_node_dump_from line0 dump))) = concat (words dump)
     \<and> (\<not> (\<exists>s. run_at dump s 78) \<longrightarrow>
          (\<forall>line str i. wrap_reach dump line str i \<longrightarrow> \<not> hard_split dump line i))
     \<and> ((\<forall>line str i. wrap_reach dump line str i \<longrightarrow> \<not> hard_split dump line i) \<longrightarrow>
          words (str_data (format_node_dump_from line0 dump)) = words dump
          \<and> (\<exists>tail. (tail = [] \<or> tail = '' '')
                \<and> list_all2 break_of (str_data (format_node_dump_from line0 dump)) (dump @ tail)))"
proof (intro conjI allI impI)
  assume nn: "NUL \<notin> set dump" and len: "int (length line0) = LINELEN + 1"
  from format_seps[OF nn len] obtain seps where
    s: "length seps = length (format_node_dump_from line0 dump)" "list_all sep_ok seps"
      "concat (map2 (@) (format_node_dump_from line0 dump) seps) = dump"
    by blast
  from s(2) have "list_all (\<lambda>s. s = [] \<or> s = '' '') seps"
    by (rule list_all_mono) (simp add: sep_ok_def)
  with s(1,3) show "\<exists>seps. length seps = length (format_node_dump_from line0 dump)
         \<and> list_all (\<lambda>s. s = [] \<or> s = '' '') seps
         \<and> concat (map2 (@) (format_node_dump_from line0 dump) seps) = dump"
    by blast
  have P: "\<not> (\<lambda>c. \<not> is_white c) (CHR '' '')" "\<not> (\<lambda>c. \<not> is_white c) NEWLINE"
    by (simp_all add: is_white_def NEWLINE_def)
  have "filter (\<lambda>c. \<not> is_white c) (str_data (format_node_dump_from line0 dump))
      = filter (\<lambda>c. \<not> is_white c) (concat (format_node_dump_from line0 dump))"
    by (rule filter_str_data[where P="\<lambda>c. \<not> is_white c", OF P(2)])
  also have "\<dots> = filter (\<lambda>c. \<not> is_white c) (concat (map2 (@) (format_node_dump_from line0 dump) seps))"
    by (rule filter_seps[where P="\<lambda>c. \<not> is_white c", OF s(1)[symmetric] s(2) P(1), symmetric])
  finally show "concat (words (str_data (format_node_dump_from line0 dump))) = concat (words dump)"
    by (simp add: words_def concat_words s(3))
next
  fix line str i
  assume "\<not> (\<exists>s. run_at dump s 78)" and "wrap_reach dump line str i"
  with hard_split_iff(2) show "\<not> hard_split dump line i" by blast
next
  assume nn: "NUL \<notin> set dump" and len: "int (length line0) = LINELEN + 1"
    and nh: "\<forall>line str i. wrap_reach dump line str i \<longrightarrow> \<not> hard_split dump line i"
  from format_text[OF nn len] nh
  show t: "\<exists>tail. (tail = [] \<or> tail = '' '')
        \<and> list_all2 break_of (str_data (format_node_dump_from line0 dump)) (dump @ tail)"
    by blast
  then obtain tail where tl: "tail = [] \<or> tail = '' ''"
    and l: "list_all2 break_of (str_data (format_node_dump_from line0 dump)) (dump @ tail)"
    by blast
  from split_acc_related[OF l]
  have "words (str_data (format_node_dump_from line0 dump)) = split_acc is_white [] (dump @ tail)"
    by (simp add: words_def)
  also from tl have "\<dots> = words dump"
    by (auto simp: words_def split_acc_trailing is_white_def)
  finally show "words (str_data (format_node_dump_from line0 dump)) = words dump" .
qed

theorem token_preservation_witness:
  "NUL \<notin> set (replicate 74 (CHR ''a'') @ '' bcdef'')
   \<and> int (length line_init) = LINELEN + 1
   \<and> \<not> (\<exists>s. run_at (replicate 74 (CHR ''a'') @ '' bcdef'') s 78)
   \<and> format_node_dump_from line_init (replicate 74 (CHR ''a'') @ '' bcdef'')
       = [replicate 74 (CHR ''a''), ''bcdef'']
   \<and> words (str_data (format_node_dump_from line_init
         (replicate 74 (CHR ''a'') @ '' bcdef'')))
       = words (replicate 74 (CHR ''a'') @ '' bcdef'')
   \<and> words (replicate 74 (CHR ''a'') @ '' bcdef'')
       = [replicate 74 (CHR ''a''), ''bcdef'']"
proof -
  define X where "X = replicate 74 (CHR ''a'') @ '' bcdef''"
  have n: "NUL \<notin> set X" by (auto simp: X_def NUL_def)
  have c: "char_at X 74 = CHR '' ''" by (simp add: X_def char_at_def nth_append)
  have ru: "\<not> (\<exists>s. run_at X s 78)"
  proof
    assume "\<exists>s. run_at X s 78"
    then obtain s where r: "run_at X s 78" by blast
    then have "s + 78 \<le> 80" by (simp add: run_at_def X_def)
    then have "int s \<le> 74" "74 < int s + int 78" by simp_all
    from run_at_char[OF r this] c show False by simp
  qed
  have f: "format_node_dump_from line_init X = [replicate 74 (CHR ''a''), ''bcdef'']"
    using rewind_eval(1) by (simp add: X_def format_node_dump_lines_def)
  from token_preservation[OF n line_init_length] ru n line_init_length f rewind_eval(2)
  show ?thesis unfolding X_def by simp
qed

text \<open>
  C4, as the specification states it, fails: a token of 79 letters comes out as a line of
  78 letters and a line of one, which are two tokens.
\<close>

theorem token_preservation_counterexample:
  "words (format_node_dump (replicate 79 (CHR ''a''))) = [replicate 78 (CHR ''a''), ''a'']
   \<and> words (replicate 79 (CHR ''a'')) = [replicate 79 (CHR ''a'')]
   \<and> words (format_node_dump (replicate 79 (CHR ''a''))) \<noteq> words (replicate 79 (CHR ''a''))"
  by code_simp

text \<open>
  C5, as the code has it. When the inner loop reads a \<^verbatim>\<open>)\<close> and the next character
  is another \<^verbatim>\<open>)\<close>, nothing is appended and the \<^verbatim>\<open>)\<close> joins the buffer; if the
  buffer is not full after it (\<open>j + 1 < LINELEN\<close>) the next pass puts the second
  \<^verbatim>\<open>)\<close> right behind the first, in the same record, and otherwise the width bound
  flushes the buffer between the two. When the next character is not a \<^verbatim>\<open>)\<close>, the
  buffer is appended with the \<^verbatim>\<open>)\<close> as its last character and the next record
  starts at once, at the indentation.
\<close>

theorem close_group_adjacency:
  "pretty_reach dump s lv \<Longrightarrow> more dump s \<Longrightarrow> char_at dump (p_i s) = CHR '')'' \<Longrightarrow>
     (if char_at dump (p_i s + 1) = CHR '')''
      then p_str (pretty_pass dump s) = p_str s
           \<and> content (pretty_pass dump s) = content s @ '')''
           \<and> p_i (pretty_pass dump s) = p_i s + 1
           \<and> (if p_j s + 1 < LINELEN
               then more dump (pretty_pass dump s)
                    \<and> (if char_at dump (p_i s + 2) = CHR '')''
                        then p_str (pretty_pass dump (pretty_pass dump s)) = p_str s
                             \<and> content (pretty_pass dump (pretty_pass dump s)) = content s @ ''))''
                        else p_str (pretty_pass dump (pretty_pass dump s)) = p_str s @ [content s @ ''))''])
               else \<not> more dump (pretty_pass dump s)
                    \<and> p_str (width_flush (pretty_pass dump s)) = p_str s @ [content s @ '')'']
                    \<and> content (width_flush (pretty_pass dump s)) = spaces (indentDist s))
      else p_str (pretty_pass dump s) = p_str s @ [content s @ '')'']
           \<and> content (pretty_pass dump s) = spaces (indentDist s)
           \<and> p_j (pretty_pass dump s) = indentDist s)"
proof -
  assume r: "pretty_reach dump s lv" and m: "more dump s" and c: "char_at dump (p_i s) = CHR '')''"
  note ok = reach_buf_ok[OF r]
  note e = pass_effect[OF ok m]
  define s1 where "s1 = pretty_pass dump s"
  note ok1 = e(1)[folded s1_def]
  have lv1: "indentLev s1 = indentLev s" using e(3) c by (simp add: s1_def)
  then have d1: "indentDist s1 = indentDist s"
    using buf_ok_dist[OF ok] buf_ok_dist[OF ok1] by simp
  show ?thesis
  proof (cases "char_at dump (p_i s + 1) = CHR '')''")
    case False
    from e(2,5) c False d1 have a: "p_str s1 = p_str s @ [content s @ '')'']"
      "content s1 = spaces (indentDist s)"
      by (simp_all add: s1_def)
    from a(2) length_content[OF ok1] buf_okD(3)[OF ok] have "p_j s1 = indentDist s"
      by (simp add: spaces_def)
    with a False show ?thesis unfolding s1_def by simp
  next
    case True
    from e(2,4,5) c True have a: "p_str s1 = p_str s" "p_i s1 = p_i s + 1"
      "content s1 = content s @ '')''"
      by (simp_all add: s1_def)
    from a(3) length_content[OF ok1] length_content[OF ok] have j1: "p_j s1 = p_j s + 1"
      by simp
    have c1: "char_at dump (p_i s1) = CHR '')''" using True a(2) by simp
    show ?thesis
    proof (cases "p_j s + 1 < LINELEN")
      case lt: True
      with j1 c1 have m1: "more dump s1" by (simp add: more_def)
      note e1 = pass_effect[OF ok1 m1]
      have n2: "char_at dump (p_i s1 + 1) = char_at dump (p_i s + 2)"
        using a(2) by (simp add: add.assoc)
      have p1: "p_str (pretty_pass dump s1)
          = p_str s1 @ (if char_at dump (p_i s + 2) \<noteq> CHR '')'' then [content s1 @ '')''] else [])"
        using e1(2) unfolding c1 n2 by simp
      have p2: "char_at dump (p_i s + 2) = CHR '')'' \<Longrightarrow> content (pretty_pass dump s1) = content s1 @ '')''"
        using e1(5) unfolding c1 n2 by simp
      from p1 p2 have "if char_at dump (p_i s + 2) = CHR '')''
          then p_str (pretty_pass dump s1) = p_str s \<and> content (pretty_pass dump s1) = content s @ ''))''
          else p_str (pretty_pass dump s1) = p_str s @ [content s @ ''))'']"
        by (simp add: a(1,3))
      with True lt m1 a show ?thesis unfolding s1_def by simp
    next
      case ge: False
      with j1 have m1: "\<not> more dump s1" by (simp add: more_def)
      note w = width_flush_effect[OF ok1]
      from w(2,5) a d1 have "p_str (width_flush s1) = p_str s @ [content s @ '')'']"
        "content (width_flush s1) = spaces (indentDist s)"
        by simp_all
      with True ge m1 a show ?thesis unfolding s1_def by simp
    qed
  qed
qed

theorem close_group_adjacency_witness:
  "pretty_reach ''))'' (indent_line (pretty_init line_init)) []
   \<and> more ''))'' (indent_line (pretty_init line_init))
   \<and> char_at ''))'' (p_i (indent_line (pretty_init line_init))) = CHR '')''
   \<and> p_str (pretty_pass ''))'' (indent_line (pretty_init line_init))) = []
   \<and> content (pretty_pass ''))'' (indent_line (pretty_init line_init))) = '')''
   \<and> p_str (pretty_pass ''))'' (pretty_pass ''))'' (indent_line (pretty_init line_init)))) = [''))'']"
proof -
  note i = init_effect[OF line_init_length]
  have r: "pretty_reach ''))'' (indent_line (pretty_init line_init)) []"
    by (rule reach_init[OF line_init_length])
  have m: "more ''))'' (indent_line (pretty_init line_init))"
    and c: "char_at ''))'' (p_i (indent_line (pretty_init line_init))) = CHR '')''"
    by (simp_all add: more_def i char_at_def LINELEN_def NUL_def)
  have n: "char_at ''))'' (p_i (indent_line (pretty_init line_init)) + 1) = CHR '')''"
    "char_at ''))'' (p_i (indent_line (pretty_init line_init)) + 2) \<noteq> CHR '')''"
    by (simp_all add: i char_at_def NUL_def)
  from close_group_adjacency[OF r m c] r m c n i show ?thesis
    by (simp add: LINELEN_def)
qed

text \<open>
  C5, as the specification states it, fails. On 77 letters followed by \<^verbatim>\<open>))\<close> the
  first \<^verbatim>\<open>)\<close> fills column 78, the inner loop stops at \<open>j = LINELEN\<close>, the outer
  loop flushes the buffer, and the second \<^verbatim>\<open>)\<close> is alone in the next record: each
  of the two records holds one \<^verbatim>\<open>)\<close>.
\<close>

theorem close_group_counterexample:
  "\<exists>ls. pretty_format_node_dump_lines (replicate 77 (CHR ''a'') @ ''))'') = Some ls
        \<and> ls = [replicate 77 (CHR ''a'') @ '')'', '')'']
        \<and> list_all (\<lambda>l. count_list l (CHR '')'') = 1) ls"
  by (simp add: width_break_eval)

text \<open>
  C6, as the code has it. In every pass of a run of \<^verbatim>\<open>format_node_dump\<close> the break is
  put inside a token exactly when the pass prints the whole buffer after a backward scan
  that found no space. A run has such a pass whenever the input has a token of more than
  78 characters, and only when it has a token of at least 78 characters: the 78
  characters from the second cell of the buffer to the character behind the buffer are
  not spaces. The backward scan stops before cell 0, so a token of exactly 78 characters
  that starts in the second cell, behind a space in the first one, is split as well.
\<close>

theorem hard_split_tokens:
  "NUL \<notin> set dump \<Longrightarrow>
     (\<forall>line str i. wrap_reach dump line str i \<longrightarrow>
         (splits_token dump line i \<longleftrightarrow> hard_split dump line i)
         \<and> (hard_split dump line i \<longrightarrow> run_at dump (nat i + 1) 78))
     \<and> ((\<exists>s. run_at dump s 79) \<longrightarrow>
          (\<exists>line str i. wrap_reach dump line str i \<and> hard_split dump line i))"
proof (intro conjI allI impI)
  fix line str i assume r: "wrap_reach dump line str i"
  from hard_split_iff(1)[OF r] show "splits_token dump line i \<longleftrightarrow> hard_split dump line i" .
  assume "hard_split dump line i"
  from hard_split_iff(2)[OF r this] show "run_at dump (nat i + 1) 78" .
next
  assume nn: "NUL \<notin> set dump" and "\<exists>s. run_at dump s 79"
  then obtain s where "run_at dump s 79" by blast
  from long_token_hard_split[OF nn this wrap_init[OF line_init_length]]
  show "\<exists>line str i. wrap_reach dump line str i \<and> hard_split dump line i" by simp
qed

theorem hard_split_tokens_witness:
  "NUL \<notin> set (replicate 79 (CHR ''a''))
   \<and> wrap_reach (replicate 79 (CHR ''a'')) line_init [] 0
   \<and> run_at (replicate 79 (CHR ''a'')) 0 79
   \<and> hard_split (replicate 79 (CHR ''a'')) line_init 0
   \<and> splits_token (replicate 79 (CHR ''a'')) line_init 0
   \<and> run_at (replicate 79 (CHR ''a'')) 1 78
   \<and> (\<exists>line str i. wrap_reach (replicate 79 (CHR ''a'')) line str i
         \<and> hard_split (replicate 79 (CHR ''a'')) line i)"
proof -
  have n: "NUL \<notin> set (replicate 79 (CHR ''a''))" by (simp add: NUL_def)
  have r: "wrap_reach (replicate 79 (CHR ''a'')) line_init [] 0"
    by (rule wrap_init[OF line_init_length])
  have ru: "run_at (replicate 79 (CHR ''a'')) 0 79" by (simp add: run_at_def)
  from hard_split_tokens[OF n] r ru long_token_eval n show ?thesis
    by (metis add_0 nat_0)
qed

text \<open>
  C6, as the specification states it, fails: on a space followed by 78 letters the first
  pass prints the whole buffer after a scan that found no space, and the token is split
  (77 letters, then one), although no token has more than 78 characters.
\<close>

theorem hard_split_counterexample:
  "wrap_reach (CHR '' '' # replicate 78 (CHR ''a'')) line_init [] 0
   \<and> hard_split (CHR '' '' # replicate 78 (CHR ''a'')) line_init 0
   \<and> \<not> (\<exists>s. run_at (CHR '' '' # replicate 78 (CHR ''a'')) s 79)
   \<and> format_node_dump_lines (CHR '' '' # replicate 78 (CHR ''a''))
       = [CHR '' '' # replicate 77 (CHR ''a''), ''a'']"
proof -
  have "\<not> run_at (CHR '' '' # replicate 78 (CHR ''a'')) s 79" for s
    by (cases s) (simp_all add: run_at_def)
  with short_token_eval wrap_init[OF line_init_length] show ?thesis by blast
qed

text \<open>
  C7, as the code has it. Both formatters come to their end on every input, also with
  unbalanced markers, and no statement of their own can fail: the outer loop of the
  pretty printer, a partial function of the state, yields a result from the initial
  state, whatever the buffer holds, and \<^verbatim>\<open>format_node_dump\<close> reaches its
  \<^verbatim>\<open>break\<close> in a pass of its run. Every pass of \<^verbatim>\<open>format_node_dump\<close> that does not
  break leaves the cursor further than it found it, also after the rewind
  \<^verbatim>\<open>i -= (j - k - 1)\<close>, and every pass of the inner loop of the pretty printer
  advances \<open>i\<close>. What they return is the text when it fits the output buffer and the
  error of \<^verbatim>\<open>appendStringInfo\<close> otherwise. The text of the pretty printer has at
  most \<open>79 * (3 * n + 1)\<close> characters for an input of \<open>n\<close>, the text of
  \<^verbatim>\<open>format_node_dump\<close> at least \<open>n\<close> and at most \<open>2 * n\<close>; inputs for which these
  bounds lie below the capacity are formatted without an error.
\<close>

theorem formatters_terminate:
  "int (length line0) = LINELEN + 1 \<Longrightarrow>
     (\<exists>ls. pretty_format_node_dump_from line0 dump = Some ls
          \<and> pretty_format_node_dump_checked cap dump = Some (return_data cap ls)
          \<and> length (str_data ls) \<le> 79 * (3 * length dump + 1)
          \<and> (79 * (3 * length dump + 1) < cap \<longrightarrow>
                pretty_format_node_dump_checked cap dump = Some (Inr (str_data ls))))
     \<and> (\<exists>line str i line1 i1 j1. wrap_reach dump line str i
            \<and> copy_line dump line i 0 = (line1, i1, j1) \<and> char_at dump i1 = NUL
            \<and> wrap_loop dump line0 [] 0 = (line1, str, j1))
     \<and> format_node_dump_checked cap dump = return_data cap (format_node_dump_from line0 dump)
     \<and> (\<forall>line i line1 i1 j1 i2 j2.
            copy_line dump line i 0 = (line1, i1, j1) \<and> char_at dump i1 \<noteq> NUL
            \<and> break_at dump line1 i1 j1 = (i2, j2) \<longrightarrow> i < i2)
     \<and> (\<forall>s. p_i s < p_i (pretty_pass dump s))
     \<and> (NUL \<notin> set dump \<longrightarrow>
            length dump \<le> length (format_node_dump dump)
            \<and> length (format_node_dump dump) \<le> 2 * length dump
            \<and> (2 * length dump < cap \<longrightarrow>
                  format_node_dump_checked cap dump = Inr (format_node_dump dump)))"
proof (intro conjI allI impI)
  assume len: "int (length line0) = LINELEN + 1"
  from pretty_length[OF len, of dump] obtain ls where
    f: "pretty_format_node_dump_from line0 dump = Some ls"
    and b: "length (str_data ls) \<le> 79 * (3 * length dump + 1)"
    by blast
  from f have c: "pretty_format_node_dump_checked cap dump = Some (return_data cap ls)"
    by (simp add: pretty_format_node_dump_checked_def pretty_buffer_independent[OF len, symmetric])
  from b have "79 * (3 * length dump + 1) < cap \<Longrightarrow> return_data cap ls = Inr (str_data ls)"
    by (simp add: return_data_fit)
  with f b c show "\<exists>ls. pretty_format_node_dump_from line0 dump = Some ls
          \<and> pretty_format_node_dump_checked cap dump = Some (return_data cap ls)
          \<and> length (str_data ls) \<le> 79 * (3 * length dump + 1)
          \<and> (79 * (3 * length dump + 1) < cap \<longrightarrow>
                pretty_format_node_dump_checked cap dump = Some (Inr (str_data ls)))"
    by auto
  from wrap_result[OF wrap_init[OF len], of dump]
  show "\<exists>line str i line1 i1 j1. wrap_reach dump line str i
            \<and> copy_line dump line i 0 = (line1, i1, j1) \<and> char_at dump i1 = NUL
            \<and> wrap_loop dump line0 [] 0 = (line1, str, j1)"
    by blast
  show "format_node_dump_checked cap dump = return_data cap (format_node_dump_from line0 dump)"
    by (simp add: format_node_dump_checked_def format_buffer_independent[OF len])
next
  fix line i line1 i1 j1 i2 j2
  assume "copy_line dump line i 0 = (line1, i1, j1) \<and> char_at dump i1 \<noteq> NUL
            \<and> break_at dump line1 i1 j1 = (i2, j2)"
  then show "i < i2" using wrap_pass_progress[of dump line i line1 i1 j1 i2 j2] by simp
next
  fix s show "p_i s < p_i (pretty_pass dump s)" by (rule pretty_pass_progress)
next
  assume nn: "NUL \<notin> set dump"
  note l = format_length[OF nn line_init_length]
  from l show "length dump \<le> length (format_node_dump dump)"
    and u: "length (format_node_dump dump) \<le> 2 * length dump"
    by (simp_all add: format_node_dump_def format_node_dump_lines_def)
  assume "2 * length dump < cap"
  with u show "format_node_dump_checked cap dump = Inr (format_node_dump dump)"
    by (simp add: format_node_dump_checked_def return_data_fit format_node_dump_def)
qed

theorem formatters_terminate_witness:
  "int (length line_init) = LINELEN + 1 \<and> NUL \<notin> set ''{a (b))} c''
   \<and> 2 * length ''{a (b))} c'' < MaxAllocSize
   \<and> 79 * (3 * length ''{a (b))} c'' + 1) < MaxAllocSize
   \<and> (\<exists>ls. pretty_format_node_dump_from line_init ''{a (b))} c'' = Some ls
         \<and> pretty_format_node_dump_checked MaxAllocSize ''{a (b))} c'' = Some (Inr (str_data ls)))
   \<and> format_node_dump_checked MaxAllocSize ''{a (b))} c'' = Inr (format_node_dump ''{a (b))} c'')"
proof -
  have n: "NUL \<notin> set ''{a (b))} c''" by (simp add: NUL_def)
  have c: "2 * length ''{a (b))} c'' < MaxAllocSize"
    "79 * (3 * length ''{a (b))} c'' + 1) < MaxAllocSize"
    by (simp_all add: MaxAllocSize_def)
  from formatters_terminate[OF line_init_length, of "''{a (b))} c''" MaxAllocSize] n c line_init_length
  show ?thesis by blast
qed

text \<open>
  C7, as the specification states it, fails. On 21 \<^verbatim>\<open>{\<close> followed by 17400000
  \<^verbatim>\<open>:\<close>, an input of 17 MB, the records of \<^verbatim>\<open>pretty_format_node_dump\<close> with their
  newlines have more than \<^verbatim>\<open>MaxAllocSize\<close> characters, so that the function ends with
  the error of \<^verbatim>\<open>appendStringInfo\<close> and returns no text. So does
  \<^verbatim>\<open>format_node_dump\<close> on a token of 1070000000 letters, an input that a palloc'd
  string can hold.
\<close>

theorem formatters_terminate_counterexample:
  "NUL \<notin> set (replicate 21 (CHR ''{'') @ replicate 17400000 (CHR '':''))
   \<and> length (replicate 21 (CHR ''{'') @ replicate 17400000 (CHR '':'')) < MaxAllocSize
   \<and> pretty_format_node_dump_checked MaxAllocSize
         (replicate 21 (CHR ''{'') @ replicate 17400000 (CHR '':'')) = Some (Inl Cannot_Enlarge)
   \<and> NUL \<notin> set (replicate 1070000000 (CHR ''a''))
   \<and> length (replicate 1070000000 (CHR ''a'')) < MaxAllocSize
   \<and> MaxAllocSize \<le> length (format_node_dump (replicate 1070000000 (CHR ''a'')))
   \<and> format_node_dump_checked MaxAllocSize (replicate 1070000000 (CHR ''a'')) = Inl Cannot_Enlarge"
proof -
  define D where "D = replicate 21 (CHR ''{'') @ replicate 17400000 (CHR '':'')"
  from colons_length[OF line_init_length, of 17400000] obtain ls where
    f: "pretty_format_node_dump_from line_init D = Some ls"
    and l: "62 * (17400000 - 1) \<le> length (str_data ls)"
    unfolding D_def by blast
  from l have m: "MaxAllocSize \<le> length (str_data ls)" by (simp add: MaxAllocSize_def)
  then have "ls \<noteq> []" by (auto simp: MaxAllocSize_def str_data_def)
  with m have "return_data MaxAllocSize ls = Inl Cannot_Enlarge" by (simp add: return_data_fit)
  with f have p: "pretty_format_node_dump_checked MaxAllocSize D = Some (Inl Cannot_Enlarge)"
    by (simp add: pretty_format_node_dump_checked_def pretty_format_node_dump_lines_def)
  have d: "NUL \<notin> set D" "length D < MaxAllocSize"
    by (simp_all add: D_def NUL_def MaxAllocSize_def)
  have "(1070000000::nat) + 1070000000 div 78
      \<le> length (str_data (format_node_dump_from line_init (replicate 1070000000 (CHR ''a''))))"
    by (rule solid_length[OF _ _ line_init_length]) (simp_all add: NUL_def)
  then have "MaxAllocSize \<le> length (format_node_dump (replicate 1070000000 (CHR ''a'')))"
    by (simp add: MaxAllocSize_def format_node_dump_def format_node_dump_lines_def)
  then have "NUL \<notin> set (replicate 1070000000 (CHR ''a''))
   \<and> length (replicate 1070000000 (CHR ''a'')) < MaxAllocSize
   \<and> MaxAllocSize \<le> length (format_node_dump (replicate 1070000000 (CHR ''a'')))
   \<and> format_node_dump_checked MaxAllocSize (replicate 1070000000 (CHR ''a'')) = Inl Cannot_Enlarge"
    by (auto simp add: format_node_dump_checked_def return_data_fit format_node_dump_def
        MaxAllocSize_def NUL_def str_data_def)
  with p d show ?thesis unfolding D_def by blast
qed

text \<open>
  C8. The marker characters of the text that \<^verbatim>\<open>pretty_format_node_dump\<close> returns are
  those of its input (the C string: the characters before the first NUL), in the same
  order. A run on the input and a run on the returned text, its line breaks read as
  spaces, both reach the end of their input, and the sequence of the values of
  \<open>indentLev\<close> after each marker character is the same in the two.
\<close>

theorem structure_idempotent:
  "int (length line0) = LINELEN + 1 \<Longrightarrow>
     \<exists>ls. pretty_format_node_dump_from line0 dump = Some ls
        \<and> filter is_marker (str_data ls) = filter is_marker (cstr dump)
        \<and> (\<exists>s lv. pretty_done dump s lv)
        \<and> (\<exists>s lv. pretty_done (respace (str_data ls)) s lv)
        \<and> (\<forall>s lv s' lv'. pretty_done dump s lv \<and> pretty_done (respace (str_data ls)) s' lv'
              \<longrightarrow> lv' = lv)"
proof -
  assume len: "int (length line0) = LINELEN + 1"
  have P: "\<not> is_marker (CHR '' '')" "\<not> is_marker NEWLINE"
    by (simp_all add: is_marker_def NEWLINE_def)
  from pretty_output[where P=is_marker, OF len P, of dump] obtain ls where
    f: "pretty_format_node_dump_from line0 dump = Some ls" and lo: "list_all line_ok ls"
    and m: "filter is_marker (str_data ls) = filter is_marker (cstr dump)"
    by blast
  have c2: "cstr (respace (str_data ls)) = respace (str_data ls)"
    by (intro cstr_id NUL_respace NUL_str_data lo)
  have "levels 0 (cstr (respace (str_data ls))) = levels 0 (filter is_marker (respace (str_data ls)))"
    by (simp add: c2 levels_filter)
  also have "\<dots> = levels 0 (filter is_marker (cstr dump))"
    by (simp add: filter_respace[where P=is_marker, OF P(2,1)] m)
  also have "\<dots> = levels 0 (cstr dump)" by (rule levels_filter)
  finally have "lv' = lv"
    if "pretty_done dump s lv" "pretty_done (respace (str_data ls)) s' lv'" for s lv s' lv'
    using done_levels[OF that(1)] done_levels[OF that(2)] by simp
  with f m pretty_done_ex[of dump] pretty_done_ex[of "respace (str_data ls)"] show ?thesis
    by blast
qed

theorem structure_idempotent_witness:
  "int (length line_init) = LINELEN + 1
   \<and> (\<exists>ls s lv s' lv'. pretty_format_node_dump_from line_init ''{A :B 1 {C :D 2}}'' = Some ls
         \<and> filter is_marker (str_data ls) = ''{:{:}}''
         \<and> pretty_done ''{A :B 1 {C :D 2}}'' s lv
         \<and> pretty_done (respace (str_data ls)) s' lv'
         \<and> lv' = lv \<and> lv = [1, 1, 2, 2, 1, 0])"
proof -
  have c: "cstr ''{A :B 1 {C :D 2}}'' = ''{A :B 1 {C :D 2}}''"
    by (simp add: cstr_def NUL_def)
  have l: "levels 0 ''{A :B 1 {C :D 2}}'' = [1, 1, 2, 2, 1, 0]"
    by (simp add: is_marker_def lev_step_def)
  have m: "filter is_marker ''{A :B 1 {C :D 2}}'' = ''{:{:}}''"
    by (simp add: is_marker_def)
  from structure_idempotent[OF line_init_length, of "''{A :B 1 {C :D 2}}''"] obtain ls s lv s' lv'
    where "pretty_format_node_dump_from line_init ''{A :B 1 {C :D 2}}'' = Some ls"
      "filter is_marker (str_data ls) = filter is_marker (cstr ''{A :B 1 {C :D 2}}'')"
      "pretty_done ''{A :B 1 {C :D 2}}'' s lv" "pretty_done (respace (str_data ls)) s' lv'"
      "lv' = lv"
    by blast
  with done_levels[of "''{A :B 1 {C :D 2}}''" s lv] c l m line_init_length show ?thesis
    by (intro conjI exI[of _ ls] exI[of _ s] exI[of _ lv] exI[of _ s'] exI[of _ lv']) simp_all
qed

text \<open>
  C9, as the code has it. No record appended by \<^verbatim>\<open>pretty_format_node_dump\<close> is empty,
  on any input and whatever the buffer holds at the start; at every test of the inner
  loop the fill position \<open>j\<close> is at least \<open>indentDist\<close>. On an input without newline
  characters the lines of the returned text are these records, so that every line of the
  text has a character before its newline.
\<close>

theorem no_empty_line:
  "int (length line0) = LINELEN + 1 \<Longrightarrow>
     (\<exists>ls. pretty_format_node_dump_from line0 dump = Some ls \<and> list_all (\<lambda>l. l \<noteq> []) ls
          \<and> (NEWLINE \<notin> set dump \<longrightarrow> text_lines [] (str_data ls) = ls))
     \<and> (\<forall>s lv. pretty_reach dump s lv \<longrightarrow> indentDist s \<le> p_j s)"
proof (intro conjI allI impI)
  assume len: "int (length line0) = LINELEN + 1"
  have P: "\<not> (\<lambda>c. c = NEWLINE) (CHR '' '')" by (simp add: NEWLINE_def)
  from pretty_records[where P="\<lambda>c. c = NEWLINE", OF len P, of dump] obtain ls where
    f: "pretty_format_node_dump_from line0 dump = Some ls" and lo: "list_all line_ok ls"
    and nl: "filter (\<lambda>c. c = NEWLINE) (concat ls) = filter (\<lambda>c. c = NEWLINE) (cstr dump)"
    by blast
  from lo have ne: "list_all (\<lambda>l. l \<noteq> []) ls"
    by (rule list_all_mono) (simp add: line_ok_def)
  have "text_lines [] (str_data ls) = ls" if "NEWLINE \<notin> set dump"
  proof -
    from that have "NEWLINE \<notin> set (cstr dump)"
      by (auto simp: cstr_def dest: set_takeWhileD)
    then have "filter (\<lambda>c. c = NEWLINE) (cstr dump) = []"
      by (auto simp: filter_empty_conv)
    with nl have "NEWLINE \<notin> set (concat ls)"
      by (auto simp: filter_empty_conv)
    then have "list_all (\<lambda>l. NEWLINE \<notin> set l) ls"
      by (auto simp: list_all_iff)
    then show ?thesis by (rule text_lines_str_data)
  qed
  with f ne show "\<exists>ls. pretty_format_node_dump_from line0 dump = Some ls \<and> list_all (\<lambda>l. l \<noteq> []) ls
          \<and> (NEWLINE \<notin> set dump \<longrightarrow> text_lines [] (str_data ls) = ls)"
    by blast
next
  fix s lv assume "pretty_reach dump s lv"
  from buf_okD(5)[OF reach_buf_ok[OF this]] show "indentDist s \<le> p_j s" .
qed

theorem no_empty_line_witness:
  "int (length line_init) = LINELEN + 1 \<and> NEWLINE \<notin> set ''{a)''
   \<and> pretty_reach ''{a)'' (indent_line (pretty_init line_init)) []
   \<and> (\<exists>ls. pretty_format_node_dump_from line_init ''{a)'' = Some ls \<and> list_all (\<lambda>l. l \<noteq> []) ls
          \<and> text_lines [] (str_data ls) = ls)
   \<and> indentDist (indent_line (pretty_init line_init)) \<le> p_j (indent_line (pretty_init line_init))"
proof -
  have r: "pretty_reach ''{a)'' (indent_line (pretty_init line_init)) []"
    by (rule reach_init[OF line_init_length])
  have n: "NEWLINE \<notin> set ''{a)''" by (simp add: NEWLINE_def)
  from no_empty_line[OF line_init_length, of "''{a)''"] r n line_init_length show ?thesis by blast
qed

text \<open>
  C9, as the specification states it, fails: a newline of the input is copied like any
  other character, so the input \<^verbatim>\<open>a\<close>, newline, newline, \<^verbatim>\<open>b\<close> comes back as one
  record whose text has an empty line.
\<close>

theorem no_empty_line_counterexample:
  "pretty_format_node_dump [CHR ''a'', NEWLINE, NEWLINE, CHR ''b'']
     = Some [CHR ''a'', NEWLINE, NEWLINE, CHR ''b'', NEWLINE]
   \<and> text_lines [] [CHR ''a'', NEWLINE, NEWLINE, CHR ''b'', NEWLINE] = [''a'', [], ''b'']"
proof -
  have "pretty_format_node_dump [CHR ''a'', NEWLINE, NEWLINE, CHR ''b'']
      = Some [CHR ''a'', NEWLINE, NEWLINE, CHR ''b'', NEWLINE]"
    by (simp only: pretty_format_node_dump_def newlines_eval) (simp add: str_data_def)
  moreover have "text_lines [] [CHR ''a'', NEWLINE, NEWLINE, CHR ''b'', NEWLINE] = [''a'', [], ''b'']"
    by (simp add: NEWLINE_def)
  ultimately show ?thesis by simp
qed

text \<open>
  C10. On \<^verbatim>\<open>{a)\<close> the last record of the output is made of spaces only: the
  \<^verbatim>\<open>)\<close> flushes the buffer at the end of the input, \<open>j\<close> restarts at the indentation
  distance 3, and the final test \<^verbatim>\<open>j > 0\<close> appends the three spaces of the prefill.
\<close>

theorem whitespace_only_last_line:
  "\<exists>ls. pretty_format_node_dump_lines ''{a)'' = Some ls \<and> ls \<noteq> [] \<and> last ls = replicate 3 (CHR '' '')
        \<and> pretty_format_node_dump ''{a)'' = Some (''   {a)'' @ [NEWLINE] @ ''   '' @ [NEWLINE])"
  by (simp add: pretty_format_node_dump_def close_paren_eval str_data_def numeral_3_eq_3)

end
